theory Spec2Isabelle
  imports Main
begin

section \<open>The license-key backend of \<^verbatim>\<open>src/api/auth.js\<close>\<close>

text \<open>
  The file holds one request handler over three PostgreSQL tables. The handler is embedded
  as a function from the tables, the clock, the random source and the request to the
  response and the new tables. Conventions:
  \<^item> a JavaScript string is a \<^typ>\<open>string\<close>, each \<^typ>\<open>char\<close> one code unit below 256;
  \<^item> the fields of the request body that name users, applications, keys and system info
    hold strings, as the clients of the API send them, and such a field is a
    \<^typ>\<open>string\<close>; the absent field is the empty string, since the checks of the handler on
    these fields (\<^verbatim>\<open>!x\<close> and \<^verbatim>\<open>x || null\<close>) treat the two alike;
  \<^item> the hardware id of a \<^verbatim>\<open>validate_key\<close> request is a string in \<open>validate_key\<close> and
    \<open>handler\<close>, and any JSON value in \<open>validate_key_any\<close> and \<open>handler_any\<close>;
  \<^item> a nullable column is an \<^typ>\<open>'a option\<close>, \<^const>\<open>None\<close> for NULL;
  \<^item> time is an integer count of milliseconds; \<^verbatim>\<open>new Date()\<close>, \<^verbatim>\<open>Date.now()\<close> and
    \<^verbatim>\<open>CURRENT_TIMESTAMP\<close> read the one clock value \<open>now\<close> of the request;
  \<^item> a statement that the database refuses (a unique or foreign key violation that the
    handler does not catch, a value outside its column type) and a \<^verbatim>\<open>JSON.parse\<close> of a
    malformed text throw, and the outer \<^verbatim>\<open>catch\<close> of the handler answers 500 with the
    tables as they were;
  \<^item> requests are handled one after another: the queries of two requests do not
    interleave.
\<close>

subsection \<open>Builtins of the language: \<^verbatim>\<open>parseInt\<close>\<close>

text \<open>
  \<^verbatim>\<open>parseInt(string)\<close> with no radix, after ECMA-262: leading white space is dropped, a
  sign is read, a \<^verbatim>\<open>0x\<close> prefix selects radix 16, and the longest prefix of digits is the
  value; no digit gives NaN, here \<^const>\<open>None\<close>.
\<close>

definition StrWhiteSpaceChar :: "char \<Rightarrow> bool" where
  "StrWhiteSpaceChar c = (let n = (of_char c :: nat) in
     n = 9 \<or> n = 10 \<or> n = 11 \<or> n = 12 \<or> n = 13 \<or> n = 32 \<or> n = 160)"

definition digitValue :: "char \<Rightarrow> nat option" where
  "digitValue c = (let n = (of_char c :: nat) in
     if 48 \<le> n \<and> n \<le> 57 then Some (n - 48)
     else if 97 \<le> n \<and> n \<le> 122 then Some (n - 87)
     else if 65 \<le> n \<and> n \<le> 90 then Some (n - 55)
     else None)"

definition radixDigit :: "nat \<Rightarrow> char \<Rightarrow> bool" where
  "radixDigit R c = (case digitValue c of None \<Rightarrow> False | Some d \<Rightarrow> d < R)"

fun mathInt :: "nat \<Rightarrow> nat \<Rightarrow> string \<Rightarrow> nat" where
  "mathInt R acc [] = acc"
| "mathInt R acc (c # cs) =
     mathInt R (acc * R + (case digitValue c of None \<Rightarrow> 0 | Some d \<Rightarrow> d)) cs"

definition parseInt :: "string \<Rightarrow> int option" where
  "parseInt inputString =
     (let S = dropWhile StrWhiteSpaceChar inputString;
          sign = (if take 1 S = ''-'' then - 1 else 1 :: int);
          S1 = (if take 1 S = ''+'' \<or> take 1 S = ''-'' then drop 1 S else S);
          hex = (take 2 S1 = ''0x'' \<or> take 2 S1 = ''0X'');
          R = (if hex then 16 else 10);
          S2 = (if hex then drop 2 S1 else S1);
          Z = takeWhile (radixDigit R) S2
      in if Z = [] then None else Some (sign * int (mathInt R 0 Z)))"

subsection \<open>Builtins of the language: \<^verbatim>\<open>JSON.stringify\<close> and \<^verbatim>\<open>JSON.parse\<close>\<close>

text \<open>
  The handler serialises the array of bound hardware ids with \<^verbatim>\<open>JSON.stringify\<close> and
  reads it back with \<^verbatim>\<open>JSON.parse\<close>. Both are given on arrays of strings, after
  ECMA-262 (QuoteJSONString) and ECMA-404. \<open>JSON_parse\<close> answers \<^const>\<open>None\<close> where
  \<^verbatim>\<open>JSON.parse\<close> throws, and also on a JSON text that is not an array of strings or that
  escapes a code unit above 255, which the model's strings cannot hold; the reader of
  every JSON text is \<open>JSON_parse_value\<close> below.
\<close>

definition hexDigit :: "nat \<Rightarrow> char" where
  "hexDigit n = char_of (if n < 10 then 48 + n else 87 + n)"

definition UnicodeEscape :: "char \<Rightarrow> string" where
  "UnicodeEscape c = (let n = (of_char c :: nat) in
     [CHR 0x5C, CHR ''u'', CHR ''0'', CHR ''0'', hexDigit (n div 16), hexDigit (n mod 16)])"

definition QuoteJSONChar :: "char \<Rightarrow> string" where
  "QuoteJSONChar c =
     (if c = CHR 0x08 then [CHR 0x5C, CHR ''b'']
      else if c = CHR 0x09 then [CHR 0x5C, CHR ''t'']
      else if c = CHR 0x0A then [CHR 0x5C, CHR ''n'']
      else if c = CHR 0x0C then [CHR 0x5C, CHR ''f'']
      else if c = CHR 0x0D then [CHR 0x5C, CHR ''r'']
      else if c = CHR 0x22 then [CHR 0x5C, CHR 0x22]
      else if c = CHR 0x5C then [CHR 0x5C, CHR 0x5C]
      else if (of_char c :: nat) < 32 then UnicodeEscape c
      else [c])"

definition QuoteJSONString :: "string \<Rightarrow> string" where
  "QuoteJSONString s = CHR 0x22 # concat (map QuoteJSONChar s) @ [CHR 0x22]"

fun join_comma :: "string list \<Rightarrow> string" where
  "join_comma [] = []"
| "join_comma [x] = x"
| "join_comma (x # y # ys) = x @ CHR '','' # join_comma (y # ys)"

definition JSON_stringify :: "string list \<Rightarrow> string" where
  "JSON_stringify xs = CHR ''['' # join_comma (map QuoteJSONString xs) @ [CHR '']'']"

definition hexValue :: "char \<Rightarrow> nat option" where
  "hexValue c = (let n = (of_char c :: nat) in
     if 48 \<le> n \<and> n \<le> 57 then Some (n - 48)
     else if 97 \<le> n \<and> n \<le> 102 then Some (n - 87)
     else if 65 \<le> n \<and> n \<le> 70 then Some (n - 55)
     else None)"

definition hex4 :: "char \<Rightarrow> char \<Rightarrow> char \<Rightarrow> char \<Rightarrow> nat option" where
  "hex4 a b c d =
     (case (hexValue a, hexValue b, hexValue c, hexValue d) of
        (Some w, Some x, Some y, Some z) \<Rightarrow> Some (((w * 16 + x) * 16 + y) * 16 + z)
      | _ \<Rightarrow> None)"

definition unescape :: "char \<Rightarrow> char option" where
  "unescape e =
     (if e = CHR 0x22 then Some (CHR 0x22)
      else if e = CHR 0x5C then Some (CHR 0x5C)
      else if e = CHR ''/'' then Some (CHR ''/'')
      else if e = CHR ''b'' then Some (CHR 0x08)
      else if e = CHR ''f'' then Some (CHR 0x0C)
      else if e = CHR ''n'' then Some (CHR 0x0A)
      else if e = CHR ''r'' then Some (CHR 0x0D)
      else if e = CHR ''t'' then Some (CHR 0x09)
      else None)"

definition cons_result :: "char \<Rightarrow> (string \<times> string) option \<Rightarrow> (string \<times> string) option" where
  "cons_result c r = (case r of None \<Rightarrow> None | Some (s, rest) \<Rightarrow> Some (c # s, rest))"

text \<open>The characters of a JSON string after its opening quote, and the text after its
  closing quote.\<close>

fun parse_chars :: "string \<Rightarrow> (string \<times> string) option" where
  "parse_chars [] = None"
| "parse_chars (c # cs) =
     (if c = CHR 0x22 then Some ([], cs)
      else if c = CHR 0x5C then
        (case cs of
           [] \<Rightarrow> None
         | e # r \<Rightarrow>
             if e = CHR ''u'' then
               (case r of
                  h1 # h2 # h3 # h4 # r' \<Rightarrow>
                    (case hex4 h1 h2 h3 h4 of
                       None \<Rightarrow> None
                     | Some n \<Rightarrow>
                         if n < 256 then cons_result (char_of n) (parse_chars r') else None)
                | _ \<Rightarrow> None)
             else
               (case unescape e of
                  None \<Rightarrow> None
                | Some d \<Rightarrow> cons_result d (parse_chars r)))
      else if (of_char c :: nat) < 32 then None
      else cons_result c (parse_chars cs))"

definition JSONWhiteSpace :: "char \<Rightarrow> bool" where
  "JSONWhiteSpace c = (c = CHR 0x09 \<or> c = CHR 0x0A \<or> c = CHR 0x0D \<or> c = CHR 0x20)"

definition skip_ws :: "string \<Rightarrow> string" where
  "skip_ws = dropWhile JSONWhiteSpace"

definition parse_string :: "string \<Rightarrow> (string \<times> string) option" where
  "parse_string t =
     (case t of [] \<Rightarrow> None | c # cs \<Rightarrow> if c = CHR 0x22 then parse_chars cs else None)"

lemma cons_result_Some:
  "cons_result c x = Some (s, r) \<longleftrightarrow> (\<exists>s'. x = Some (s', r) \<and> s = c # s')"
  by (cases x) (auto simp: cons_result_def)

lemma parse_chars_shorter: "parse_chars t = Some (s, r) \<Longrightarrow> length r < length t"
proof (induction "length t" arbitrary: t s r rule: less_induct)
  case less
  show ?case
  proof (cases t)
    case Nil
    with less.prems show ?thesis by simp
  next
    case (Cons c cs)
    have IH: "\<And>u s' r'. length u < length t \<Longrightarrow> parse_chars u = Some (s', r')
        \<Longrightarrow> length r' < length u"
      using less.hyps by blast
    from less.prems Cons show ?thesis
      by (auto simp: cons_result_Some split: if_splits list.splits option.splits
          dest!: IH[rotated])
  qed
qed

lemma parse_string_shorter: "parse_string t = Some (s, r) \<Longrightarrow> length r < length t"
  by (auto simp: parse_string_def split: list.splits if_splits dest: parse_chars_shorter)

lemma skip_ws_le: "length (skip_ws t) \<le> length t"
  by (simp add: skip_ws_def length_dropWhile_le)

text \<open>The elements of a non-empty array up to its closing bracket.\<close>

function parse_elements :: "string \<Rightarrow> (string list \<times> string) option" where
  "parse_elements t =
     (case parse_string (skip_ws t) of
        None \<Rightarrow> None
      | Some (s, r) \<Rightarrow>
          (case skip_ws r of
             [] \<Rightarrow> None
           | c # r' \<Rightarrow>
               if c = CHR '']'' then Some ([s], r')
               else if c = CHR '','' then
                 (case parse_elements r' of
                    None \<Rightarrow> None
                  | Some (ss, r'') \<Rightarrow> Some (s # ss, r''))
               else None))"
  by pat_completeness auto
termination
proof (relation "measure length", goal_cases)
  case 1
  then show ?case by simp
next
  case (2 t x s r c r')
  have "length r < length (skip_ws t)"
    using 2 parse_string_shorter by metis
  moreover have "length (c # r') \<le> length r"
    using 2 skip_ws_le by metis
  ultimately show ?case
    using skip_ws_le[of t] by simp
qed

declare parse_elements.simps [simp del]

definition JSON_parse :: "string \<Rightarrow> string list option" where
  "JSON_parse text =
     (case skip_ws text of
        [] \<Rightarrow> None
      | c # r \<Rightarrow>
          if c \<noteq> CHR ''['' then None
          else (case skip_ws r of
                  [] \<Rightarrow> None
                | d # r' \<Rightarrow>
                    if d = CHR '']'' then (if skip_ws r' = [] then Some [] else None)
                    else (case parse_elements r of
                            None \<Rightarrow> None
                          | Some (ss, r'') \<Rightarrow> if skip_ws r'' = [] then Some ss else None)))"

subsection \<open>The tables\<close>

text \<open>
  The columns of \<^verbatim>\<open>initializeTables\<close>. The serial ids and the creation timestamps are
  left out: the handler reads them only to order listings.
\<close>

type_synonym timestamp = int

record application =
  name :: string
  api_key :: string
  created_by :: string

record key_row =
  key :: string
  api :: string
  prefix :: string
  expires_at :: timestamp
  hwid :: "string option"
  banned :: bool
  used :: bool
  device_limit :: "int option"
  system_info :: "string option"
  first_used :: "timestamp option"

record support =
  user_id :: string
  added_by :: string

record database =
  applications :: "application list"
  keys :: "key_row list"
  supports :: "support list"

definition MAIN_ADMIN_ID :: string where
  "MAIN_ADMIN_ID = ''techdavisk007''"

definition MAX_APPS_FOR_SUPPORT :: nat where
  "MAX_APPS_FOR_SUPPORT = 10"

text \<open>The tables as \<^verbatim>\<open>initializeTables\<close> creates and seeds them.\<close>

definition initializeTables :: database where
  "initializeTables =
     \<lparr>applications = [], keys = [],
      supports = [\<lparr>user_id = MAIN_ADMIN_ID, added_by = ''system''\<rparr>]\<rparr>"

subsection \<open>Responses\<close>

text \<open>A response is its status code, its \<^verbatim>\<open>success\<close> flag and its \<^verbatim>\<open>message\<close> (empty
  when the body has none); the rows and keys some responses carry are left out.\<close>

record response =
  statusCode :: nat
  success :: bool
  message :: string

definition jsonResponse :: "nat \<Rightarrow> bool \<Rightarrow> string \<Rightarrow> response" where
  "jsonResponse code ok msg = \<lparr>statusCode = code, success = ok, message = msg\<rparr>"

text \<open>The handler's outer \<^verbatim>\<open>catch\<close>: the text of the error is the database's or the
  engine's, and stands here as a tag.\<close>

definition server_error :: "string \<Rightarrow> response" where
  "server_error e = jsonResponse 500 False (''Server error: '' @ e)"

subsection \<open>The permission resolver\<close>

record permission =
  hasPermission :: bool
  isAdmin :: bool

definition checkIfAdmin :: "string \<Rightarrow> bool" where
  "checkIfAdmin uid = (uid = MAIN_ADMIN_ID)"

definition getUserAppCount :: "database \<Rightarrow> string \<Rightarrow> nat" where
  "getUserAppCount db uid = length (filter (\<lambda>a. created_by a = uid) (applications db))"

definition checkAppPermission :: "database \<Rightarrow> string \<Rightarrow> string \<Rightarrow> permission" where
  "checkAppPermission db uid apikey =
     (if checkIfAdmin uid then \<lparr>hasPermission = True, isAdmin = True\<rparr>
      else
        let supportCheck = filter (\<lambda>s. user_id s = uid) (supports db) in
        if length supportCheck > 0 then \<lparr>hasPermission = True, isAdmin = False\<rparr>
        else
          let result = filter (\<lambda>a. api_key a = apikey \<and> created_by a = uid) (applications db)
          in \<lparr>hasPermission = (length result > 0), isAdmin = False\<rparr>)"

subsection \<open>Applications and support grants\<close>

text \<open>
  \<open>rnd\<close> is the text of \<^verbatim>\<open>Math.random().toString(36)\<close>. The INSERT throws on a value
  longer than its VARCHAR(255) column, and with code 23505, which the handler catches, on
  a name or an API key that a row already has.
\<close>

definition create_app :: "database \<Rightarrow> string \<Rightarrow> string \<Rightarrow> string \<Rightarrow> response \<times> database" where
  "create_app db rnd app_name uid =
     (if app_name = [] \<or> uid = [] then
        (jsonResponse 400 False ''App name & User ID required'', db)
      else
        let ca_isAdmin = checkIfAdmin uid;
            ca_count = getUserAppCount db uid
        in
        if \<not> ca_isAdmin \<and> ca_count \<ge> MAX_APPS_FOR_SUPPORT then
          (jsonResponse 200 False ''Limit 10 apps reached'', db)
        else
          let ca_api = ''api_'' @ take 16 (drop 2 rnd) in
          if length app_name > 255 \<or> length ca_api > 255 \<or> length uid > 255 then
            (server_error ''value too long'', db)
          else if filter (\<lambda>a. name a = app_name \<or> api_key a = ca_api) (applications db) \<noteq> [] then
            (jsonResponse 200 False ''App exists'', db)
          else
            (jsonResponse 200 True ''App created'',
             db\<lparr>applications := applications db @
                  [\<lparr>name = app_name, api_key = ca_api, created_by = uid\<rparr>]\<rparr>))"

text \<open>The DELETE cascades to the keys whose \<^verbatim>\<open>api\<close> is the API key of a deleted
  application.\<close>

definition delete_app :: "database \<Rightarrow> string \<Rightarrow> string \<Rightarrow> response \<times> database" where
  "delete_app db da_name uid =
     (if da_name = [] \<or> uid = [] then
        (jsonResponse 400 False ''Required fields missing'', db)
      else
        case filter (\<lambda>a. name a = da_name) (applications db) of
          [] \<Rightarrow> (jsonResponse 200 False ''App not found'', db)
        | da_app # _ \<Rightarrow>
            if \<not> hasPermission (checkAppPermission db uid (api_key da_app)) then
              (jsonResponse 403 False ''No permission'', db)
            else
              let gone = map api_key (filter (\<lambda>a. name a = da_name) (applications db)) in
              (jsonResponse 200 True ''App deleted'',
               db\<lparr>applications := filter (\<lambda>a. name a \<noteq> da_name) (applications db),
                  keys := filter (\<lambda>k. api k \<notin> set gone) (keys db)\<rparr>))"

definition add_support :: "database \<Rightarrow> string \<Rightarrow> string \<Rightarrow> response \<times> database" where
  "add_support db uid admin =
     (if uid = [] \<or> admin = [] then
        (jsonResponse 400 False ''User ID & Admin ID required'', db)
      else if \<not> checkIfAdmin admin then
        (jsonResponse 403 False ''Only admin can add'', db)
      else if length uid > 255 then
        (server_error ''value too long'', db)
      else if filter (\<lambda>s. user_id s = uid) (supports db) \<noteq> [] then
        (jsonResponse 200 False ''Already support'', db)
      else
        (jsonResponse 200 True (''Support '' @ uid @ '' added''),
         db\<lparr>supports := supports db @ [\<lparr>user_id = uid, added_by = admin\<rparr>]\<rparr>))"

definition delete_support :: "database \<Rightarrow> string \<Rightarrow> string \<Rightarrow> response \<times> database" where
  "delete_support db uid admin =
     (if uid = [] \<or> admin = [] then
        (jsonResponse 400 False ''User ID & Admin ID required'', db)
      else if \<not> checkIfAdmin admin then
        (jsonResponse 403 False ''Only admin can delete'', db)
      else if uid = MAIN_ADMIN_ID then
        (jsonResponse 400 False ''Cannot delete main admin'', db)
      else if filter (\<lambda>s. user_id s = uid) (supports db) \<noteq> [] then
        (jsonResponse 200 True ''Support deleted'',
         db\<lparr>supports := filter (\<lambda>s. user_id s \<noteq> uid) (supports db)\<rparr>)
      else
        (jsonResponse 200 False ''Not found'', db))"

subsection \<open>The key lifecycle\<close>

text \<open>
  The row that the INSERT of \<^verbatim>\<open>create_key\<close> writes: the five columns it names, and the
  defaults of the table for the others.
\<close>

definition new_key_row :: "string \<Rightarrow> string \<Rightarrow> string \<Rightarrow> timestamp \<Rightarrow> int \<Rightarrow> key_row" where
  "new_key_row k a p e l =
     \<lparr>key = k, api = a, prefix = p, expires_at = e, hwid = None, banned = False,
      used = False, device_limit = Some l, system_info = None, first_used = None\<rparr>"

text \<open>
  \<^verbatim>\<open>parseInt(device_limit) || 1\<close>. The field is \<^const>\<open>None\<close> when the body has none, and
  else the text that \<^verbatim>\<open>parseInt\<close> reads: the string itself, or the digits of a number.
\<close>

definition ck_limit :: "string option \<Rightarrow> int" where
  "ck_limit device_limit_field =
     (case device_limit_field of
        None \<Rightarrow> 1
      | Some s \<Rightarrow> (case parseInt s of None \<Rightarrow> 1 | Some n \<Rightarrow> if n = 0 then 1 else n))"

text \<open>
  The key string is the template literal of the source as it is written there, which has
  no substitution in it: \<^verbatim>\<open>generateKey\<close> is not called. \<open>days\<close> is a whole number, 0 when
  the body has none. The INSERT throws on a value outside its column type (VARCHAR(255),
  VARCHAR(50), INTEGER, a date outside the range of \<^verbatim>\<open>Date\<close>), on a key string that a
  row already has, and on an \<^verbatim>\<open>api\<close> that no application has.
\<close>

definition create_key ::
  "database \<Rightarrow> timestamp \<Rightarrow> string \<Rightarrow> string \<Rightarrow> int \<Rightarrow> string option \<Rightarrow> string
    \<Rightarrow> response \<times> database" where
  "create_key db now ck_api pfx days device_limit_field uid =
     (if ck_api = [] \<or> pfx = [] \<or> days = 0 \<or> uid = [] then
        (jsonResponse 400 False ''Missing fields'', db)
      else if \<not> hasPermission (checkAppPermission db uid ck_api) then
        (jsonResponse 403 False ''No permission'', db)
      else
        let ck_key = ''( {prefix}- ){generateKey()}'';
            ck_expires = now + days * 86400000;
            limit = ck_limit device_limit_field
        in
        if length ck_api > 255 \<or> length pfx > 50 then
          (server_error ''value too long'', db)
        else if \<bar>ck_expires\<bar> > 8640000000000000 then
          (server_error ''invalid date'', db)
        else if limit < - 2147483648 \<or> limit > 2147483647 then
          (server_error ''integer out of range'', db)
        else if filter (\<lambda>r. key r = ck_key) (keys db) \<noteq> [] then
          (server_error ''duplicate key'', db)
        else if filter (\<lambda>a. api_key a = ck_api) (applications db) = [] then
          (server_error ''foreign key violation'', db)
        else
          (jsonResponse 200 True ''Key created'',
           db\<lparr>keys := keys db @ [new_key_row ck_key ck_api pfx ck_expires limit]\<rparr>))"

definition delete_key :: "database \<Rightarrow> string \<Rightarrow> string \<Rightarrow> string \<Rightarrow> response \<times> database" where
  "delete_key db dk_api dk_key uid =
     (if dk_api = [] \<or> dk_key = [] \<or> uid = [] then
        (jsonResponse 400 False ''Missing fields'', db)
      else if \<not> hasPermission (checkAppPermission db uid dk_api) then
        (jsonResponse 403 False ''No permission'', db)
      else if filter (\<lambda>r. key r = dk_key \<and> api r = dk_api) (keys db) \<noteq> [] then
        (jsonResponse 200 True ''Key deleted'',
         db\<lparr>keys := filter (\<lambda>r. \<not> (key r = dk_key \<and> api r = dk_api)) (keys db)\<rparr>)
      else
        (jsonResponse 200 False ''Key not found'', db))"

definition ban_key :: "database \<Rightarrow> string \<Rightarrow> string \<Rightarrow> string \<Rightarrow> response \<times> database" where
  "ban_key db bk_api bk_key uid =
     (if bk_api = [] \<or> bk_key = [] \<or> uid = [] then
        (jsonResponse 400 False ''Missing fields'', db)
      else if \<not> hasPermission (checkAppPermission db uid bk_api) then
        (jsonResponse 403 False ''No permission'', db)
      else if filter (\<lambda>r. key r = bk_key \<and> api r = bk_api) (keys db) \<noteq> [] then
        (jsonResponse 200 True ''Key banned'',
         db\<lparr>keys := map (\<lambda>r. if key r = bk_key \<and> api r = bk_api
                              then r\<lparr>banned := True\<rparr> else r) (keys db)\<rparr>)
      else
        (jsonResponse 200 False ''Key not found'', db))"

definition reset_hwid :: "database \<Rightarrow> string \<Rightarrow> string \<Rightarrow> string \<Rightarrow> response \<times> database" where
  "reset_hwid db rh_api rh_key uid =
     (if rh_api = [] \<or> rh_key = [] \<or> uid = [] then
        (jsonResponse 400 False ''Missing fields'', db)
      else if \<not> hasPermission (checkAppPermission db uid rh_api) then
        (jsonResponse 403 False ''No permission'', db)
      else if filter (\<lambda>r. key r = rh_key \<and> api r = rh_api) (keys db) \<noteq> [] then
        (jsonResponse 200 True ''HWID reset'',
         db\<lparr>keys := map (\<lambda>r. if key r = rh_key \<and> api r = rh_api
                              then r\<lparr>hwid := None, used := False, system_info := None,
                                     first_used := None\<rparr>
                              else r) (keys db)\<rparr>)
      else
        (jsonResponse 200 False ''Key not found'', db))"

subsection \<open>The device binding validator\<close>

text \<open>\<^verbatim>\<open>vk_k.hwid ? JSON.parse(vk_k.hwid) : []\<close>: NULL and the empty text are falsy;
  \<^const>\<open>None\<close> is the parse that throws.\<close>

definition bound_hwids :: "key_row \<Rightarrow> string list option" where
  "bound_hwids vk_k =
     (case hwid vk_k of
        None \<Rightarrow> Some []
      | Some text \<Rightarrow> if text = [] then Some [] else JSON_parse text)"

text \<open>\<^verbatim>\<open>vk_k.device_limit || 1\<close>.\<close>

definition vk_limit :: "key_row \<Rightarrow> int" where
  "vk_limit vk_k =
     (case device_limit vk_k of None \<Rightarrow> 1 | Some n \<Rightarrow> if n = 0 then 1 else n)"

text \<open>The SET clause of the UPDATE of \<^verbatim>\<open>validate_key\<close>, on one row.\<close>

definition bind_update :: "string \<Rightarrow> string option \<Rightarrow> timestamp \<Rightarrow> key_row \<Rightarrow> key_row" where
  "bind_update text info now r =
     r\<lparr>hwid := Some text, used := True, system_info := info,
       first_used := (case first_used r of None \<Rightarrow> Some now | Some t \<Rightarrow> Some t)\<rparr>"

definition validate_key ::
  "database \<Rightarrow> timestamp \<Rightarrow> string \<Rightarrow> string \<Rightarrow> string \<Rightarrow> string \<Rightarrow> response \<times> database" where
  "validate_key db now vk_api vk_key hw sysinfo =
     (if vk_api = [] \<or> vk_key = [] \<or> hw = [] then
        (jsonResponse 400 False ''API, Key, HWID required'', db)
      else if filter (\<lambda>a. api_key a = vk_api) (applications db) = [] then
        (jsonResponse 200 False ''Invalid API'', db)
      else
        case filter (\<lambda>r. key r = vk_key \<and> api r = vk_api) (keys db) of
          [] \<Rightarrow> (jsonResponse 200 False ''Invalid key'', db)
        | vk_k # _ \<Rightarrow>
            if banned vk_k then (jsonResponse 200 False ''Key banned'', db)
            else if now > expires_at vk_k then (jsonResponse 200 False ''Key expired'', db)
            else
              case bound_hwids vk_k of
                None \<Rightarrow> (server_error ''JSON.parse'', db)
              | Some hwids \<Rightarrow>
                  if hw \<in> set hwids then (jsonResponse 200 True ''Valid key'', db)
                  else if int (length hwids) \<ge> vk_limit vk_k then
                    (jsonResponse 200 False ''Device limit reached'', db)
                  else
                    (jsonResponse 200 True ''Valid key'',
                     db\<lparr>keys := map (\<lambda>r. if key r = vk_key \<and> api r = vk_api
                              then bind_update (JSON_stringify (hwids @ [hw]))
                                     (if sysinfo = [] then None else Some sysinfo) now r
                              else r) (keys db)\<rparr>))"

subsection \<open>The handler\<close>

text \<open>
  A request is a POST whose body parsed as JSON, by its \<^verbatim>\<open>action\<close>; \<open>Invalid_action\<close> is
  every other action name. The actions that only read answer with the tables unchanged.
\<close>

datatype request =
    Check_support string
  | Test
  | Create_app string string
  | Delete_app string string
  | Create_key string string int "string option" string
  | Delete_key string string string
  | Ban_key string string string
  | Check_key string string string
  | Reset_hwid string string string
  | Get_apps string
  | Get_my_apps string
  | Get_keys string string
  | Add_support string string
  | Delete_support string string
  | Get_supports
  | Validate_key string string string string
  | Check_permission string string
  | Invalid_action string

definition check_support :: "database \<Rightarrow> string \<Rightarrow> response" where
  "check_support db uid =
     (if uid = [] then jsonResponse 400 False ''User ID required''
      else if filter (\<lambda>s. user_id s = uid) (supports db) \<noteq> [] then jsonResponse 200 True []
      else jsonResponse 200 False ''No permission'')"

definition check_key :: "database \<Rightarrow> string \<Rightarrow> string \<Rightarrow> string \<Rightarrow> response" where
  "check_key db chk_api chk_key uid =
     (if chk_api = [] \<or> chk_key = [] \<or> uid = [] then jsonResponse 400 False ''Missing fields''
      else if \<not> hasPermission (checkAppPermission db uid chk_api) then
        jsonResponse 403 False ''No permission''
      else if filter (\<lambda>r. key r = chk_key \<and> api r = chk_api) (keys db) \<noteq> [] then
        jsonResponse 200 True []
      else jsonResponse 200 False ''Key not found'')"

definition get_keys :: "database \<Rightarrow> string \<Rightarrow> string \<Rightarrow> response" where
  "get_keys db gk_api uid =
     (if gk_api = [] \<or> uid = [] then jsonResponse 400 False ''API & User ID required''
      else if \<not> hasPermission (checkAppPermission db uid gk_api) then
        jsonResponse 403 False ''No permission''
      else jsonResponse 200 True [])"

definition user_id_required :: "string \<Rightarrow> response" where
  "user_id_required uid =
     (if uid = [] then jsonResponse 400 False ''User ID required'' else jsonResponse 200 True [])"

fun handler :: "database \<Rightarrow> timestamp \<Rightarrow> string \<Rightarrow> request \<Rightarrow> response \<times> database" where
  "handler db now rnd (Check_support uid) = (check_support db uid, db)"
| "handler db now rnd Test = (jsonResponse 200 True ''API working with Neon!'', db)"
| "handler db now rnd (Create_app app_name uid) = create_app db rnd app_name uid"
| "handler db now rnd (Delete_app app_name uid) = delete_app db app_name uid"
| "handler db now rnd (Create_key a pfx days device_limit_field uid) =
     create_key db now a pfx days device_limit_field uid"
| "handler db now rnd (Delete_key a k uid) = delete_key db a k uid"
| "handler db now rnd (Ban_key a k uid) = ban_key db a k uid"
| "handler db now rnd (Check_key a k uid) = (check_key db a k uid, db)"
| "handler db now rnd (Reset_hwid a k uid) = reset_hwid db a k uid"
| "handler db now rnd (Get_apps uid) = (user_id_required uid, db)"
| "handler db now rnd (Get_my_apps uid) = (user_id_required uid, db)"
| "handler db now rnd (Get_keys a uid) = (get_keys db a uid, db)"
| "handler db now rnd (Add_support uid admin) = add_support db uid admin"
| "handler db now rnd (Delete_support uid admin) = delete_support db uid admin"
| "handler db now rnd Get_supports = (jsonResponse 200 True [], db)"
| "handler db now rnd (Validate_key a k hw sysinfo) = validate_key db now a k hw sysinfo"
| "handler db now rnd (Check_permission uid a) = (user_id_required uid, db)"
| "handler db now rnd (Invalid_action act) =
     (jsonResponse 400 False (''Invalid action: '' @ (if act = [] then ''none'' else act)), db)"

text \<open>The tables that a sequence of requests leads to, each request with its clock value
  and its random text.\<close>

inductive reaches :: "database \<Rightarrow> database \<Rightarrow> bool" where
  reaches_refl: "reaches db db"
| reaches_step: "reaches db db' \<Longrightarrow> reaches db (snd (handler db' now rnd req))"

definition reachable :: "database \<Rightarrow> bool" where
  "reachable db = reaches initializeTables db"

text \<open>A sequence of \<^verbatim>\<open>validate_key\<close> requests: clock value, API key, key, hardware id and
  system info of each.\<close>

fun validate_all ::
  "database \<Rightarrow> (timestamp \<times> string \<times> string \<times> string \<times> string) list \<Rightarrow> database" where
  "validate_all db [] = db"
| "validate_all db ((now, a, k, hw, sysinfo) # calls) =
     validate_all (snd (handler db now [] (Validate_key a k hw sysinfo))) calls"

subsection \<open>The validator on any JSON value\<close>

text \<open>
  The handler does not ask that the \<^verbatim>\<open>hwid\<close> field of a \<^verbatim>\<open>validate_key\<close> request be a
  string: it tests that the field is truthy, looks it up with \<^verbatim>\<open>includes\<close>, pushes it and
  serialises the array (lines 343 to 360). \<open>validate_key\<close> above is the handler on the
  requests whose \<^verbatim>\<open>hwid\<close> is a string; \<open>validate_key_any\<close> below is the handler on every
  value that \<^verbatim>\<open>JSON.parse\<close> of the request body can give, and lemma
  \<open>validate_key_any_string\<close> shows that the two agree on strings.

  In a value, \<open>JNumber t\<close> is the finite number that \<^verbatim>\<open>Number.prototype.toString\<close> prints
  as \<open>t\<close> (so both zeros are \<open>JNumber ''0''\<close>); \<open>JNonFinite\<close> is an infinity, which
  \<^verbatim>\<open>JSON.parse\<close> gives for a number beyond the doubles and \<^verbatim>\<open>JSON.stringify\<close> writes as
  \<^verbatim>\<open>null\<close>; the members of an object stand in the order in which the engine enumerates
  them.
\<close>

datatype json =
    JNull
  | JBool bool
  | JNumber string
  | JNonFinite
  | JString string
  | JArray "json list"
  | JObject "(string \<times> json) list"

text \<open>
  A number token is the longest run of the characters that numbers are written with, and
  must be a number of the JSON grammar: an optional minus, digits with no leading zero, an
  optional fraction and an optional exponent.
\<close>

definition is_digit :: "char \<Rightarrow> bool" where
  "is_digit c = (let n = (of_char c :: nat) in 48 \<le> n \<and> n \<le> 57)"

definition number_char :: "char \<Rightarrow> bool" where
  "number_char c = (is_digit c \<or> c = CHR ''-'' \<or> c = CHR ''+'' \<or> c = CHR ''.'' \<or>
     c = CHR ''e'' \<or> c = CHR ''E'')"

definition json_exponent :: "string \<Rightarrow> bool" where
  "json_exponent s =
     (case s of
        [] \<Rightarrow> True
      | c # r \<Rightarrow>
          (c = CHR ''e'' \<or> c = CHR ''E'') \<and>
          (let d = (if take 1 r = ''+'' \<or> take 1 r = ''-'' then drop 1 r else r)
           in d \<noteq> [] \<and> list_all is_digit d))"

definition json_fraction :: "string \<Rightarrow> bool" where
  "json_fraction s =
     (case s of
        [] \<Rightarrow> True
      | c # r \<Rightarrow>
          if c = CHR ''.'' then takeWhile is_digit r \<noteq> [] \<and> json_exponent (dropWhile is_digit r)
          else json_exponent s)"

definition json_number :: "string \<Rightarrow> bool" where
  "json_number s =
     (let u = (if take 1 s = ''-'' then drop 1 s else s);
          i = takeWhile is_digit u
      in i \<noteq> [] \<and> (if take 1 i = ''0'' then length i = 1 else True) \<and>
         json_fraction (dropWhile is_digit u))"

definition lex_number :: "string \<Rightarrow> (string \<times> string) option" where
  "lex_number t =
     (let tok = takeWhile number_char t
      in if json_number tok then Some (tok, dropWhile number_char t) else None)"

text \<open>\<^verbatim>\<open>JSON.stringify\<close> of a value, with no indentation.\<close>

primrec ser :: "json \<Rightarrow> string" where
  "ser JNull = ''null''"
| "ser (JBool b) = (if b then ''true'' else ''false'')"
| "ser (JNumber t) = t"
| "ser JNonFinite = ''null''"
| "ser (JString s) = QuoteJSONString s"
| "ser (JArray vs) = CHR ''['' # join_comma (map ser vs) @ [CHR '']'']"
| "ser (JObject ms) =
     CHR ''{'' # join_comma (map (\<lambda>(k, t). QuoteJSONString k @ CHR '':'' # t)
                               (map (map_prod id ser) ms)) @ [CHR ''}'']"

text \<open>
  \<^verbatim>\<open>JSON.parse\<close> of any text. The first argument bounds the depth of the calls;
  \<open>JSON_parse_value\<close> gives it more than the length of the text, which suffices: a
  nesting costs two calls and has its two brackets, and a further element costs one call
  and has its comma. A number is kept by the token read, which is its text in every text
  that \<^verbatim>\<open>JSON.stringify\<close> wrote.
\<close>

fun parse_value :: "nat \<Rightarrow> string \<Rightarrow> (json \<times> string) option"
  and parse_elems :: "nat \<Rightarrow> string \<Rightarrow> (json list \<times> string) option"
  and parse_members :: "nat \<Rightarrow> string \<Rightarrow> ((string \<times> json) list \<times> string) option"
where
  "parse_value 0 t = None"
| "parse_value (Suc n) t =
     (case t of
        [] \<Rightarrow> None
      | c # cs \<Rightarrow>
          if c = CHR 0x22 then
            (case parse_chars cs of None \<Rightarrow> None | Some (s, r) \<Rightarrow> Some (JString s, r))
          else if c = CHR ''['' then
            (if take 1 (skip_ws cs) = '']'' then Some (JArray [], drop 1 (skip_ws cs))
             else case parse_elems n cs of
                    None \<Rightarrow> None
                  | Some (vs, r) \<Rightarrow> Some (JArray vs, r))
          else if c = CHR ''{'' then
            (if take 1 (skip_ws cs) = ''}'' then Some (JObject [], drop 1 (skip_ws cs))
             else case parse_members n cs of
                    None \<Rightarrow> None
                  | Some (ms, r) \<Rightarrow> Some (JObject ms, r))
          else if take 4 t = ''null'' then Some (JNull, drop 4 t)
          else if take 4 t = ''true'' then Some (JBool True, drop 4 t)
          else if take 5 t = ''false'' then Some (JBool False, drop 5 t)
          else (case lex_number t of
                  None \<Rightarrow> None
                | Some (tok, r) \<Rightarrow> Some (JNumber tok, r)))"
| "parse_elems 0 t = None"
| "parse_elems (Suc n) t =
     (case parse_value n (skip_ws t) of
        None \<Rightarrow> None
      | Some (v, r) \<Rightarrow>
          (case skip_ws r of
             [] \<Rightarrow> None
           | c # r' \<Rightarrow>
               if c = CHR '']'' then Some ([v], r')
               else if c = CHR '','' then
                 (case parse_elems n r' of
                    None \<Rightarrow> None
                  | Some (vs, r'') \<Rightarrow> Some (v # vs, r''))
               else None))"
| "parse_members 0 t = None"
| "parse_members (Suc n) t =
     (case parse_string (skip_ws t) of
        None \<Rightarrow> None
      | Some (k, r) \<Rightarrow>
          (case skip_ws r of
             [] \<Rightarrow> None
           | c # r1 \<Rightarrow>
               if c \<noteq> CHR '':'' then None
               else
                 (case parse_value n (skip_ws r1) of
                    None \<Rightarrow> None
                  | Some (v, r2) \<Rightarrow>
                      (case skip_ws r2 of
                         [] \<Rightarrow> None
                       | d # r3 \<Rightarrow>
                           if d = CHR ''}'' then Some ([(k, v)], r3)
                           else if d = CHR '','' then
                             (case parse_members n r3 of
                                None \<Rightarrow> None
                              | Some (ms, r4) \<Rightarrow> Some ((k, v) # ms, r4))
                           else None))))"

definition JSON_parse_value :: "string \<Rightarrow> json option" where
  "JSON_parse_value text =
     (case parse_value (Suc (length text)) (skip_ws text) of
        None \<Rightarrow> None
      | Some (v, r) \<Rightarrow> if skip_ws r = [] then Some v else None)"

text \<open>
  Truthiness: \<^verbatim>\<open>null\<close>, \<^verbatim>\<open>false\<close>, zero and the empty string are falsy.
  \<^verbatim>\<open>Array.prototype.includes\<close> compares with SameValueZero: a string, a number, a boolean
  or \<^verbatim>\<open>null\<close> is found when the array holds the same value; an array or an object of
  the request is not the object that \<^verbatim>\<open>JSON.parse\<close> made for an element, and is never
  found.
\<close>

definition truthy :: "json \<Rightarrow> bool" where
  "truthy v =
     (case v of
        JNull \<Rightarrow> False
      | JBool b \<Rightarrow> b
      | JNumber t \<Rightarrow> t \<noteq> ''0''
      | JNonFinite \<Rightarrow> True
      | JString s \<Rightarrow> s \<noteq> []
      | JArray _ \<Rightarrow> True
      | JObject _ \<Rightarrow> True)"

definition array_includes :: "json list \<Rightarrow> json \<Rightarrow> bool" where
  "array_includes hwids v =
     (case v of
        JArray _ \<Rightarrow> False
      | JObject _ \<Rightarrow> False
      | _ \<Rightarrow> v \<in> set hwids)"

definition JSON_stringify_values :: "json list \<Rightarrow> string" where
  "JSON_stringify_values vs = ser (JArray vs)"

text \<open>\<^verbatim>\<open>vk_k.hwid ? JSON.parse(vk_k.hwid) : []\<close> on any text. A text that parses to a value
  that is not an array, which no request writes, is taken to throw where the handler
  calls \<^verbatim>\<open>hwids.includes\<close> and \<^verbatim>\<open>hwids.push\<close>.\<close>

definition bound_values :: "key_row \<Rightarrow> json list option" where
  "bound_values vk_k =
     (case hwid vk_k of
        None \<Rightarrow> Some []
      | Some text \<Rightarrow>
          if text = [] then Some []
          else (case JSON_parse_value text of
                  Some (JArray vs) \<Rightarrow> Some vs
                | _ \<Rightarrow> None))"

definition validate_key_any ::
  "database \<Rightarrow> timestamp \<Rightarrow> string \<Rightarrow> string \<Rightarrow> json \<Rightarrow> string \<Rightarrow> response \<times> database" where
  "validate_key_any db now vk_api vk_key hw sysinfo =
     (if vk_api = [] \<or> vk_key = [] \<or> \<not> truthy hw then
        (jsonResponse 400 False ''API, Key, HWID required'', db)
      else if filter (\<lambda>a. api_key a = vk_api) (applications db) = [] then
        (jsonResponse 200 False ''Invalid API'', db)
      else
        case filter (\<lambda>r. key r = vk_key \<and> api r = vk_api) (keys db) of
          [] \<Rightarrow> (jsonResponse 200 False ''Invalid key'', db)
        | vk_k # _ \<Rightarrow>
            if banned vk_k then (jsonResponse 200 False ''Key banned'', db)
            else if now > expires_at vk_k then (jsonResponse 200 False ''Key expired'', db)
            else
              case bound_values vk_k of
                None \<Rightarrow> (server_error ''JSON.parse'', db)
              | Some hwids \<Rightarrow>
                  if array_includes hwids hw then (jsonResponse 200 True ''Valid key'', db)
                  else if int (length hwids) \<ge> vk_limit vk_k then
                    (jsonResponse 200 False ''Device limit reached'', db)
                  else
                    (jsonResponse 200 True ''Valid key'',
                     db\<lparr>keys := map (\<lambda>r. if key r = vk_key \<and> api r = vk_api
                              then bind_update (JSON_stringify_values (hwids @ [hw]))
                                     (if sysinfo = [] then None else Some sysinfo) now r
                              else r) (keys db)\<rparr>))"

text \<open>
  The handler on both kinds of request: a \<^verbatim>\<open>validate_key\<close> request with any value as its
  \<^verbatim>\<open>hwid\<close>, and the requests of \<open>handler\<close>, of which \<^verbatim>\<open>validate_key\<close> passes its string
  as a value. A value of a request is as \<^verbatim>\<open>JSON.parse\<close> makes it: its numbers are number
  tokens and its objects have no key twice.
\<close>

datatype any_request =
    Validate_key_any string string json string
  | Request request

fun handler_any ::
  "database \<Rightarrow> timestamp \<Rightarrow> string \<Rightarrow> any_request \<Rightarrow> response \<times> database" where
  "handler_any db now rnd (Validate_key_any a k hw sysinfo) =
     validate_key_any db now a k hw sysinfo"
| "handler_any db now rnd (Request (Validate_key a k hw sysinfo)) =
     validate_key_any db now a k (JString hw) sysinfo"
| "handler_any db now rnd (Request req) = handler db now rnd req"

primrec wf_json :: "json \<Rightarrow> bool" where
  "wf_json JNull = True"
| "wf_json (JBool b) = True"
| "wf_json (JNumber t) = (list_all number_char t \<and> json_number t)"
| "wf_json JNonFinite = True"
| "wf_json (JString s) = True"
| "wf_json (JArray vs) = list_all id (map wf_json vs)"
| "wf_json (JObject ms) =
     (distinct (map fst ms) \<and> list_all id (map snd (map (map_prod id wf_json) ms)))"

fun wf_request :: "any_request \<Rightarrow> bool" where
  "wf_request (Validate_key_any a k hw sysinfo) = wf_json hw"
| "wf_request (Request req) = True"

inductive reaches_any :: "database \<Rightarrow> database \<Rightarrow> bool" where
  reaches_any_refl: "reaches_any db db"
| reaches_any_step:
    "reaches_any db db' \<Longrightarrow> wf_request req \<Longrightarrow> reaches_any db (snd (handler_any db' now rnd req))"

definition reachable_any :: "database \<Rightarrow> bool" where
  "reachable_any db = reaches_any initializeTables db"

section \<open>Auxiliary definitions\<close>

subsection \<open>Invariants of the keys table\<close>

text \<open>
  Of every row that the handler can produce: the key string and the API key are not empty,
  the device limit is a stored non-zero integer, and the \<^verbatim>\<open>hwid\<close> column is NULL or the
  serialisation of a non-empty list of distinct hardware ids that is no longer than the
  limit. Of the table: no two rows share a key string (the column is UNIQUE), and every
  row references an application (the foreign key).
\<close>

definition key_inv :: "key_row \<Rightarrow> bool" where
  "key_inv r = (key r \<noteq> [] \<and> api r \<noteq> [] \<and> (\<exists>l. device_limit r = Some l \<and> l \<noteq> 0 \<and>
      (hwid r = None \<or>
       (\<exists>hs. hwid r = Some (JSON_stringify hs) \<and> hs \<noteq> [] \<and> distinct hs \<and> int (length hs) \<le> l))))"

definition db_inv :: "database \<Rightarrow> bool" where
  "db_inv db = (distinct (map key (keys db)) \<and> list_all key_inv (keys db))"

definition fk_inv :: "database \<Rightarrow> bool" where
  "fk_inv db = (api ` set (keys db) \<subseteq> api_key ` set (applications db))"

subsection \<open>A freshly issued key\<close>

text \<open>The row that the INSERT of \<^verbatim>\<open>create_key\<close> writes for the key string, the
  application, the prefix, the expiration and the device limit of a given row.\<close>

definition fresh_key :: "key_row \<Rightarrow> key_row" where
  "fresh_key r = new_key_row (key r) (api r) (prefix r) (expires_at r)
     (case device_limit r of None \<Rightarrow> 1 | Some l \<Rightarrow> l)"

subsection \<open>A run of the handler\<close>

text \<open>
  User \<^verbatim>\<open>U1\<close> registers the application \<^verbatim>\<open>Foo\<close> and issues a key for 30 days with a
  given device limit; the hardware id \<^verbatim>\<open>H1\<close> is then bound at time 5 with system info
  \<^verbatim>\<open>Win10\<close>, to a key of limit 2 (\<open>scenario_bound\<close>) and to a key of limit 1
  (\<open>scenario_full\<close>); \<open>scenario_banned\<close> bans the former at time 6.
\<close>

definition scenario_app :: database where
  "scenario_app = snd (handler initializeTables 0 ''0.abcdef'' (Create_app ''Foo'' ''U1''))"

definition scenario_key :: "string \<Rightarrow> database" where
  "scenario_key lim =
     snd (handler scenario_app 0 [] (Create_key ''api_abcdef'' ''PRO'' 30 (Some lim) ''U1''))"

definition scenario_bound :: database where
  "scenario_bound =
     snd (handler (scenario_key ''2'') 5 []
       (Validate_key ''api_abcdef'' ''( {prefix}- ){generateKey()}'' ''H1'' ''Win10''))"


definition scenario_banned :: database where
  "scenario_banned =
     snd (handler scenario_bound 6 []
       (Ban_key ''api_abcdef'' ''( {prefix}- ){generateKey()}'' ''U1''))"

definition scenario_row :: "string option \<Rightarrow> bool \<Rightarrow> bool \<Rightarrow> int \<Rightarrow> string option \<Rightarrow> timestamp option \<Rightarrow> key_row" where
  "scenario_row h b u l s f =
     \<lparr>key = ''( {prefix}- ){generateKey()}'', api = ''api_abcdef'', prefix = ''PRO'',
      expires_at = 2592000000, hwid = h, banned = b, used = u, device_limit = Some l,
      system_info = s, first_used = f\<rparr>"

subsection \<open>Values that are read back\<close>

text \<open>What \<^verbatim>\<open>JSON.parse\<close> reads from the text that \<^verbatim>\<open>JSON.stringify\<close> wrote for a
  value: the value with \<^verbatim>\<open>null\<close> for every infinity.\<close>

primrec reparsed :: "json \<Rightarrow> json" where
  "reparsed JNull = JNull"
| "reparsed (JBool b) = JBool b"
| "reparsed (JNumber t) = JNumber t"
| "reparsed JNonFinite = JNull"
| "reparsed (JString s) = JString s"
| "reparsed (JArray vs) = JArray (map reparsed vs)"
| "reparsed (JObject ms) = JObject (map (map_prod id reparsed) ms)"

definition delimited :: "string \<Rightarrow> bool" where
  "delimited rest = (case rest of [] \<Rightarrow> True | c # _ \<Rightarrow> \<not> number_char c)"

definition roundtrips :: "json \<Rightarrow> bool" where
  "roundtrips v = (\<forall>n rest. length (ser v) \<le> n \<longrightarrow> delimited rest \<longrightarrow>
     parse_value n (ser v @ rest) = Some (reparsed v, rest))"

text \<open>The first character of a serialised value.\<close>

definition value_start :: "char \<Rightarrow> bool" where
  "value_start c = (\<not> JSONWhiteSpace c \<and> c \<noteq> CHR '']'' \<and> c \<noteq> CHR ''}'')"

definition ser_member :: "string \<times> json \<Rightarrow> string" where
  "ser_member m = QuoteJSONString (fst m) @ CHR '':'' # ser (snd m)"

text \<open>Of every row that the handler on any value can produce: the \<^verbatim>\<open>hwid\<close> column is
  NULL or the serialisation of an array of values of requests.\<close>

definition any_inv :: "key_row \<Rightarrow> bool" where
  "any_inv r = (hwid r = None \<or>
     (\<exists>vs. hwid r = Some (JSON_stringify_values vs) \<and> list_all wf_json vs))"

definition any_db_inv :: "database \<Rightarrow> bool" where
  "any_db_inv db = list_all any_inv (keys db)"

text \<open>The key of limit 2 binds the number 5 at time 5 (\<open>scenario_number\<close>) and then the
  string \<^verbatim>\<open>H1\<close> at time 6 (\<open>scenario_mixed\<close>).\<close>

definition scenario_number :: database where
  "scenario_number =
     snd (handler_any (scenario_key ''2'') 5 []
       (Validate_key_any ''api_abcdef'' ''( {prefix}- ){generateKey()}'' (JNumber ''5'') []))"

definition scenario_mixed :: database where
  "scenario_mixed =
     snd (handler_any scenario_number 6 []
       (Validate_key_any ''api_abcdef'' ''( {prefix}- ){generateKey()}'' (JString ''H1'') []))"

section \<open>Properties\<close>

subsection \<open>\<^verbatim>\<open>JSON.parse\<close> reads back what \<^verbatim>\<open>JSON.stringify\<close> wrote\<close>

lemma hexValue_hexDigit: "k < 16 \<Longrightarrow> hexValue (hexDigit k) = Some k"
  by (auto simp: hexValue_def hexDigit_def Let_def)

lemma hex4_UnicodeEscape:
  assumes "n < 256"
  shows "hex4 (CHR ''0'') (CHR ''0'') (hexDigit (n div 16)) (hexDigit (n mod 16)) = Some n"
proof -
  have z: "hexValue (CHR ''0'') = Some 0"
    by (simp add: hexValue_def)
  have hi: "hexValue (hexDigit (n div 16)) = Some (n div 16)"
    using assms by (intro hexValue_hexDigit) simp
  have lo: "hexValue (hexDigit (n mod 16)) = Some (n mod 16)"
    by (intro hexValue_hexDigit) simp
  show ?thesis
    by (simp add: hex4_def z hi lo)
qed

lemma parse_chars_QuoteJSONChar:
  "parse_chars (QuoteJSONChar c @ t) = cons_result c (parse_chars t)"
proof -
  let ?named = "{CHR 0x08, CHR 0x09, CHR 0x0A, CHR 0x0C, CHR 0x0D, CHR 0x22, CHR 0x5C}"
  consider (named) "c \<in> ?named"
    | (ctrl) "c \<notin> ?named" "(of_char c :: nat) < 32"
    | (plain) "c \<notin> ?named" "\<not> (of_char c :: nat) < 32"
    by blast
  then show ?thesis
  proof cases
    case named
    then show ?thesis
      by (auto simp: QuoteJSONChar_def unescape_def)
  next
    case ctrl
    have lt: "(of_char c :: nat) < 256"
      using ctrl(2) by simp
    have q: "QuoteJSONChar c = UnicodeEscape c"
      using ctrl by (simp add: QuoteJSONChar_def)
    show ?thesis
      using hex4_UnicodeEscape[OF lt] lt by (simp add: q UnicodeEscape_def Let_def)
  next
    case plain
    then show ?thesis
      by (simp add: QuoteJSONChar_def)
  qed
qed

lemma parse_chars_quoted:
  "parse_chars (concat (map QuoteJSONChar s) @ CHR 0x22 # rest) = Some (s, rest)"
  by (induction s) (simp_all add: parse_chars_QuoteJSONChar cons_result_def)

lemma parse_string_QuoteJSONString:
  "parse_string (QuoteJSONString s @ rest) = Some (s, rest)"
  by (simp add: parse_string_def QuoteJSONString_def parse_chars_quoted)

lemma skip_ws_QuoteJSONString: "skip_ws (QuoteJSONString s @ rest) = QuoteJSONString s @ rest"
  by (simp add: skip_ws_def QuoteJSONString_def JSONWhiteSpace_def)

lemma skip_ws_punct:
  "skip_ws (CHR '','' # t) = CHR '','' # t" "skip_ws (CHR '']'' # t) = CHR '']'' # t"
  "skip_ws [] = []"
  by (simp_all add: skip_ws_def JSONWhiteSpace_def)

lemma parse_elements_join:
  "parse_elements (join_comma (map QuoteJSONString (x # xs)) @ CHR '']'' # rest)
     = Some (x # xs, rest)"
proof (induction xs arbitrary: x)
  case Nil
  show ?case
    by (subst parse_elements.simps)
      (simp add: parse_string_QuoteJSONString skip_ws_QuoteJSONString skip_ws_punct)
next
  case (Cons y ys)
  show ?case
    by (subst parse_elements.simps)
      (simp add: parse_string_QuoteJSONString skip_ws_QuoteJSONString skip_ws_punct
        Cons.IH[simplified])
qed

lemma JSON_parse_stringify: "JSON_parse (JSON_stringify xs) = Some xs"
proof (cases xs)
  case Nil
  then show ?thesis
    by (simp add: JSON_parse_def JSON_stringify_def skip_ws_def JSONWhiteSpace_def)
next
  case (Cons x ys)
  define body where "body = join_comma (map QuoteJSONString (x # ys)) @ [CHR '']'']"
  have ws1: "skip_ws (CHR ''['' # body) = CHR ''['' # body"
    by (simp add: skip_ws_def JSONWhiteSpace_def)
  obtain w where w: "body = CHR 0x22 # w"
    unfolding body_def by (cases ys) (simp_all add: QuoteJSONString_def)
  have ws2: "skip_ws body = CHR 0x22 # w"
    by (simp add: w skip_ws_def JSONWhiteSpace_def)
  have els: "parse_elements body = Some (x # ys, [])"
    unfolding body_def by (rule parse_elements_join)
  have "JSON_parse (CHR ''['' # body) = Some (x # ys)"
    unfolding JSON_parse_def ws1 by (simp add: ws2 els skip_ws_punct)
  then show ?thesis
    by (simp add: JSON_stringify_def Cons body_def)
qed

lemma JSON_stringify_nonempty: "JSON_stringify hs \<noteq> []"
  by (simp add: JSON_stringify_def)

lemma bound_hwids_stringify: "hwid r = Some (JSON_stringify hs) \<Longrightarrow> bound_hwids r = Some hs"
  by (simp add: bound_hwids_def JSON_parse_stringify JSON_stringify_nonempty)

subsection \<open>Every request keeps the invariants\<close>

lemma ck_limit_nonzero: "ck_limit f \<noteq> 0"
  by (simp add: ck_limit_def split: option.splits)

lemma key_inv_new: "l \<noteq> 0 \<Longrightarrow> k \<noteq> [] \<Longrightarrow> a \<noteq> [] \<Longrightarrow> key_inv (new_key_row k a p e l)"
  by (simp add: key_inv_def new_key_row_def)

lemma key_new_key_row: "key (new_key_row k a p e l) = k"
  by (simp add: new_key_row_def)

lemma db_inv_create_key: "db_inv db \<Longrightarrow> db_inv (snd (create_key db now a p d f u))"
  by (auto simp: create_key_def db_inv_def Let_def key_inv_new ck_limit_nonzero
      filter_empty_conv key_new_key_row)

lemma db_inv_delete_key: "db_inv db \<Longrightarrow> db_inv (snd (delete_key db a k u))"
  by (auto simp: delete_key_def db_inv_def distinct_map_filter list_all_iff)

lemma db_inv_delete_app: "db_inv db \<Longrightarrow> db_inv (snd (delete_app db n u))"
  by (auto simp: delete_app_def db_inv_def distinct_map_filter list_all_iff Let_def split: list.splits)

lemma map_key_update:
  "(\<And>r. key (f r) = key r) \<Longrightarrow> map key (map (\<lambda>r. if P r then f r else r) rs) = map key rs"
  by (induction rs) auto

lemma db_inv_update:
  assumes "db_inv db" "\<And>r. key (f r) = key r" "\<And>r. key_inv r \<Longrightarrow> key_inv (f r)"
  shows "db_inv (db\<lparr>keys := map (\<lambda>r. if P r then f r else r) (keys db)\<rparr>)"
proof -
  have "map key (map (\<lambda>r. if P r then f r else r) (keys db)) = map key (keys db)"
    by (rule map_key_update) (rule assms(2))
  moreover have "list_all key_inv (map (\<lambda>r. if P r then f r else r) (keys db))"
    using assms(1,3) by (auto simp: db_inv_def list_all_iff)
  ultimately show ?thesis
    using assms(1) by (simp add: db_inv_def del: map_map)
qed

lemma db_inv_ban_key: "db_inv db \<Longrightarrow> db_inv (snd (ban_key db a k u))"
  unfolding ban_key_def by (auto intro!: db_inv_update simp: key_inv_def)

lemma db_inv_reset_hwid: "db_inv db \<Longrightarrow> db_inv (snd (reset_hwid db a k u))"
  unfolding reset_hwid_def by (auto intro!: db_inv_update simp: key_inv_def)

lemma filter_first_unique:
  assumes "distinct (map key rs)" "filter (\<lambda>r. key r = k \<and> api r = a) rs = v # vs"
    "r \<in> set rs" "key r = k"
  shows "r = v"
proof -
  have "v \<in> set (filter (\<lambda>r. key r = k \<and> api r = a) rs)"
    using assms(2) by simp
  then have "v \<in> set rs" "key v = k" by auto
  with assms(1,3,4) show ?thesis
    by (metis distinct_map inj_onD)
qed

lemma key_inv_bound:
  assumes "key_inv r" "bound_hwids r = Some hs"
  shows "\<exists>l. device_limit r = Some l \<and> l \<noteq> 0 \<and> distinct hs
     \<and> (hs \<noteq> [] \<longrightarrow> int (length hs) \<le> l)
     \<and> (hwid r = None \<or> hwid r = Some (JSON_stringify hs))"
proof -
  obtain l where l: "device_limit r = Some l" "l \<noteq> 0"
    and h: "hwid r = None \<or> (\<exists>hs'. hwid r = Some (JSON_stringify hs') \<and> hs' \<noteq> []
              \<and> distinct hs' \<and> int (length hs') \<le> l)"
    using assms(1) unfolding key_inv_def by blast
  from h show ?thesis
  proof
    assume "hwid r = None"
    then show ?thesis
      using assms(2) l by (simp add: bound_hwids_def)
  next
    assume "\<exists>hs'. hwid r = Some (JSON_stringify hs') \<and> hs' \<noteq> []
              \<and> distinct hs' \<and> int (length hs') \<le> l"
    then obtain hs' where hs': "hwid r = Some (JSON_stringify hs')" "distinct hs'"
      "int (length hs') \<le> l" by blast
    have "hs' = hs"
      using bound_hwids_stringify[OF hs'(1)] assms(2) by simp
    then show ?thesis
      using hs' l by simp
  qed
qed

lemma key_inv_bind:
  assumes "key_inv v" "bound_hwids v = Some hs" "hw \<notin> set hs" "\<not> int (length hs) \<ge> vk_limit v"
  shows "key_inv (bind_update (JSON_stringify (hs @ [hw])) info now v)"
proof -
  obtain l where l: "device_limit v = Some l" "l \<noteq> 0" "distinct hs"
    using key_inv_bound[OF assms(1,2)] by blast
  have "int (length hs) < l"
    using assms(4) l by (simp add: vk_limit_def)
  moreover have "key v \<noteq> []" "api v \<noteq> []"
    using assms(1) by (simp_all add: key_inv_def)
  ultimately show ?thesis
    using l assms(3) unfolding key_inv_def bind_update_def
    by (auto intro!: exI[of _ "hs @ [hw]"])
qed

lemma db_inv_validate_key:
  assumes "db_inv db"
  shows "db_inv (snd (validate_key db now a k hw si))"
proof -
  have d: "distinct (map key (keys db))" and ki: "\<And>r. r \<in> set (keys db) \<Longrightarrow> key_inv r"
    using assms by (auto simp: db_inv_def list_all_iff)
  have upd: "db_inv (db\<lparr>keys := map (\<lambda>r. if key r = k \<and> api r = a
        then bind_update (JSON_stringify (hs @ [hw])) info now r else r) (keys db)\<rparr>)"
    if f: "filter (\<lambda>r. key r = k \<and> api r = a) (keys db) = v # vs"
      and b: "bound_hwids v = Some hs" and nin: "hw \<notin> set hs"
      and lim: "\<not> int (length hs) \<ge> vk_limit v"
    for v vs hs info
  proof -
    let ?upd = "bind_update (JSON_stringify (hs @ [hw])) info now"
    let ?rows = "map (\<lambda>r. if key r = k \<and> api r = a then ?upd r else r) (keys db)"
    have "v \<in> set (filter (\<lambda>r. key r = k \<and> api r = a) (keys db))"
      using f by simp
    then have vin: "v \<in> set (keys db)" by simp
    have keys_same: "map key ?rows = map key (keys db)"
      by (rule map_key_update) (simp add: bind_update_def)
    have "key_inv r'" if "r' \<in> set ?rows" for r'
    proof -
      from that obtain r where r: "r \<in> set (keys db)"
        "r' = (if key r = k \<and> api r = a then ?upd r else r)" by auto
      show ?thesis
      proof (cases "key r = k \<and> api r = a")
        case True
        then have "r = v" using filter_first_unique[OF d f r(1)] by simp
        then show ?thesis
          using r(2) True key_inv_bind[OF ki[OF vin] b nin lim] by simp
      next
        case False
        with r(2) have "r' = r" by simp
        then show ?thesis using r(1) ki by simp
      qed
    qed
    then show ?thesis
      using d keys_same by (simp add: db_inv_def list_all_iff del: map_map)
  qed
  show ?thesis
    using assms upd by (auto simp: validate_key_def split: list.split option.split)
qed

lemma db_inv_handler: "db_inv db \<Longrightarrow> db_inv (snd (handler db now rnd req))"
proof (cases req)
  case (Create_app n u)
  assume "db_inv db"
  then show ?thesis
    by (simp add: Create_app create_app_def db_inv_def Let_def)
next
  case (Add_support u ad)
  assume "db_inv db"
  then show ?thesis
    by (simp add: Add_support add_support_def db_inv_def)
next
  case (Delete_support u ad)
  assume "db_inv db"
  then show ?thesis
    by (simp add: Delete_support delete_support_def db_inv_def)
qed (simp_all add: db_inv_create_key db_inv_delete_key db_inv_delete_app db_inv_ban_key
    db_inv_reset_hwid db_inv_validate_key)

lemma db_inv_init: "db_inv initializeTables"
  by (simp add: db_inv_def initializeTables_def)

lemma reaches_db_inv: "reaches db db' \<Longrightarrow> db_inv db \<Longrightarrow> db_inv db'"
  by (induction rule: reaches.induct) (simp_all add: db_inv_handler)

lemma reachable_db_inv: "reachable db \<Longrightarrow> db_inv db"
  unfolding reachable_def using reaches_db_inv db_inv_init by blast

lemma api_new_key_row: "api (new_key_row k a p e l) = a"
  by (simp add: new_key_row_def)

lemma fk_inv_create_key:
  assumes "fk_inv db"
  shows "fk_inv (snd (create_key db now a p d f u))"
proof -
  have "fk_inv (db\<lparr>keys := keys db @ [new_key_row k a p e l]\<rparr>)"
    if ex: "filter (\<lambda>x. api_key x = a) (applications db) \<noteq> []" for k e l
  proof -
    obtain x where "x \<in> set (applications db)" "api_key x = a"
      using ex by (auto simp: filter_empty_conv)
    then have "a \<in> api_key ` set (applications db)"
      by blast
    then show ?thesis
      using assms by (simp add: fk_inv_def api_new_key_row)
  qed
  then show ?thesis
    using assms by (simp add: create_key_def Let_def)
qed

lemma fk_inv_create_app:
  assumes "fk_inv db"
  shows "fk_inv (snd (create_app db rnd n u))"
proof -
  have "fk_inv (db\<lparr>applications := applications db @ [x]\<rparr>)" for x
    using assms unfolding fk_inv_def by auto
  then show ?thesis
    using assms by (simp add: create_app_def Let_def)
qed

lemma fk_inv_delete_key:
  assumes "fk_inv db"
  shows "fk_inv (snd (delete_key db a k u))"
proof -
  have "fk_inv (db\<lparr>keys := filter P (keys db)\<rparr>)" for P
    using assms unfolding fk_inv_def by auto
  then show ?thesis
    using assms by (simp add: delete_key_def)
qed

lemma fk_inv_delete_app:
  assumes "fk_inv db"
  shows "fk_inv (snd (delete_app db n u))"
proof -
  define gone where "gone = map api_key (filter (\<lambda>a. name a = n) (applications db))"
  define apps' where "apps' = filter (\<lambda>a. name a \<noteq> n) (applications db)"
  define keys' where "keys' = filter (\<lambda>k. api k \<notin> set gone) (keys db)"
  have "api r \<in> api_key ` set apps'" if r: "r \<in> set keys'" for r
  proof -
    have rin: "r \<in> set (keys db)" and notgone: "api r \<notin> set gone"
      using r by (simp_all add: keys'_def)
    obtain a where a: "a \<in> set (applications db)" "api_key a = api r"
      using assms rin unfolding fk_inv_def by force
    have "name a \<noteq> n"
    proof
      assume "name a = n"
      then have "api_key a \<in> set gone"
        using a(1) by (simp add: gone_def)
      then show False
        using a(2) notgone by simp
    qed
    then have "a \<in> set apps'"
      using a(1) by (simp add: apps'_def)
    then show ?thesis
      using a(2) by force
  qed
  then have "api ` set keys' \<subseteq> api_key ` set apps'"
    by blast
  then have "fk_inv (db\<lparr>applications := apps', keys := keys'\<rparr>)"
    by (simp add: fk_inv_def)
  then show ?thesis
    using assms by (simp add: delete_app_def Let_def gone_def apps'_def keys'_def split: list.split)
qed

lemma fk_inv_update:
  assumes "fk_inv db" "\<And>r. api (f r) = api r"
  shows "fk_inv (db\<lparr>keys := map (\<lambda>r. if P r then f r else r) (keys db)\<rparr>)"
  using assms unfolding fk_inv_def by auto

lemma fk_inv_ban_key: "fk_inv db \<Longrightarrow> fk_inv (snd (ban_key db a k u))"
  by (simp add: ban_key_def fk_inv_update)

lemma fk_inv_reset_hwid: "fk_inv db \<Longrightarrow> fk_inv (snd (reset_hwid db a k u))"
  by (simp add: reset_hwid_def fk_inv_update)

lemma fk_inv_validate_key:
  assumes "fk_inv db"
  shows "fk_inv (snd (validate_key db now a k hw si))"
proof -
  have "fk_inv (db\<lparr>keys := map (\<lambda>r. if key r = k \<and> api r = a
      then bind_update t i now r else r) (keys db)\<rparr>)" for t i
    using assms by (rule fk_inv_update) (simp add: bind_update_def)
  then show ?thesis
    using assms by (simp add: validate_key_def split: list.split option.split)
qed

lemma fk_inv_handler: "fk_inv db \<Longrightarrow> fk_inv (snd (handler db now rnd req))"
proof (cases req)
  case (Add_support u ad)
  assume "fk_inv db"
  then show ?thesis
    by (simp add: Add_support add_support_def fk_inv_def)
next
  case (Delete_support u ad)
  assume "fk_inv db"
  then show ?thesis
    by (simp add: Delete_support delete_support_def fk_inv_def)
qed (simp_all add: fk_inv_create_key fk_inv_create_app fk_inv_delete_key fk_inv_delete_app
    fk_inv_ban_key fk_inv_reset_hwid fk_inv_validate_key)

lemma fk_inv_init: "fk_inv initializeTables"
  by (simp add: fk_inv_def initializeTables_def)

lemma reaches_fk_inv: "reaches db db' \<Longrightarrow> fk_inv db \<Longrightarrow> fk_inv db'"
  by (induction rule: reaches.induct) (simp_all add: fk_inv_handler)

lemma reachable_fk_inv: "reachable db \<Longrightarrow> fk_inv db"
  unfolding reachable_def using reaches_fk_inv fk_inv_init by blast

subsection \<open>Rows of a reachable database\<close>

lemma reachable_step: "reachable db \<Longrightarrow> reachable (snd (handler db now rnd req))"
  unfolding reachable_def by (rule reaches_step)

lemma reachable_init: "reachable initializeTables"
  unfolding reachable_def by (rule reaches_refl)

lemma reachable_scenario_key: "reachable (scenario_key lim)"
  unfolding scenario_key_def scenario_app_def by (intro reachable_step reachable_init)

lemma reachable_scenario_bound: "reachable scenario_bound"
  unfolding scenario_bound_def by (intro reachable_step reachable_scenario_key)


lemma reachable_scenario_banned: "reachable scenario_banned"
  unfolding scenario_banned_def by (intro reachable_step reachable_scenario_bound)

lemma keys_scenario_key:
  "keys (scenario_key ''2'') = [scenario_row None False False 2 None None]"
  "keys (scenario_key ''1'') = [scenario_row None False False 1 None None]"
  "keys (scenario_key ''-5'') = [scenario_row None False False (- 5) None None]"
  by code_simp+


lemma keys_scenario_bound:
  "keys scenario_bound =
     [scenario_row (Some (JSON_stringify [''H1''])) False True 2 (Some ''Win10'') (Some 5)]"
  by code_simp

lemma keys_scenario_banned:
  "keys scenario_banned =
     [scenario_row (Some (JSON_stringify [''H1''])) True True 2 (Some ''Win10'') (Some 5)]"
  by code_simp

lemma scenario_row_sel:
  "key (scenario_row h b u l s f) = ''( {prefix}- ){generateKey()}''"
  "api (scenario_row h b u l s f) = ''api_abcdef''"
  "expires_at (scenario_row h b u l s f) = 2592000000"
  "hwid (scenario_row h b u l s f) = h"
  "banned (scenario_row h b u l s f) = b"
  "device_limit (scenario_row h b u l s f) = Some l"
  "system_info (scenario_row h b u l s f) = s"
  "first_used (scenario_row h b u l s f) = f"
  by (simp_all add: scenario_row_def)

lemma reachable_row_lookup:
  assumes "reachable db" "r \<in> set (keys db)"
  shows "\<exists>rest. filter (\<lambda>x. key x = key r \<and> api x = api r) (keys db) = r # rest"
proof -
  have d: "distinct (map key (keys db))"
    using reachable_db_inv[OF assms(1)] by (simp add: db_inv_def)
  have "r \<in> set (filter (\<lambda>x. key x = key r \<and> api x = api r) (keys db))"
    using assms(2) by simp
  then obtain v vs where f: "filter (\<lambda>x. key x = key r \<and> api x = api r) (keys db) = v # vs"
    by (cases "filter (\<lambda>x. key x = key r \<and> api x = api r) (keys db)") auto
  have "r = v"
    using filter_first_unique[OF d f assms(2)] by simp
  with f show ?thesis by blast
qed

lemma reachable_row_app:
  assumes "reachable db" "r \<in> set (keys db)"
  shows "filter (\<lambda>a. api_key a = api r) (applications db) \<noteq> []"
proof -
  have "api r \<in> api_key ` set (applications db)"
    using reachable_fk_inv[OF assms(1)] assms(2) unfolding fk_inv_def by blast
  then show ?thesis
    by (auto simp: filter_empty_conv)
qed

lemma reachable_row_fields:
  assumes "reachable db" "r \<in> set (keys db)"
  shows "key r \<noteq> []" "api r \<noteq> []" "key_inv r"
  using reachable_db_inv[OF assms(1)] assms(2)
  by (auto simp: db_inv_def list_all_iff key_inv_def)

text \<open>The decision of \<^verbatim>\<open>validate_key\<close> on a row of a reachable database, named by its
  API key and its key string.\<close>

lemma validate_key_row:
  assumes "reachable db" "r \<in> set (keys db)" "hw \<noteq> []"
  shows "validate_key db now (api r) (key r) hw si =
     (if banned r then (jsonResponse 200 False ''Key banned'', db)
      else if now > expires_at r then (jsonResponse 200 False ''Key expired'', db)
      else case bound_hwids r of
             None \<Rightarrow> (server_error ''JSON.parse'', db)
           | Some hwids \<Rightarrow>
               if hw \<in> set hwids then (jsonResponse 200 True ''Valid key'', db)
               else if int (length hwids) \<ge> vk_limit r then
                 (jsonResponse 200 False ''Device limit reached'', db)
               else
                 (jsonResponse 200 True ''Valid key'',
                  db\<lparr>keys := map (\<lambda>x. if key x = key r \<and> api x = api r
                           then bind_update (JSON_stringify (hwids @ [hw]))
                                  (if si = [] then None else Some si) now x
                           else x) (keys db)\<rparr>))"
proof -
  obtain rest where f: "filter (\<lambda>x. key x = key r \<and> api x = api r) (keys db) = r # rest"
    using reachable_row_lookup[OF assms(1,2)] by blast
  show ?thesis
    using reachable_row_app[OF assms(1,2)] reachable_row_fields(1,2)[OF assms(1,2)] assms(3)
    by (simp add: validate_key_def f)
qed

lemma reset_row_fresh:
  assumes "key_inv x" "\<not> banned x"
  shows "x\<lparr>hwid := None, used := False, system_info := None, first_used := None\<rparr> = fresh_key x"
proof -
  obtain l where "device_limit x = Some l"
    using assms(1) unfolding key_inv_def by blast
  then show ?thesis
    using assms(2) by (simp add: fresh_key_def new_key_row_def)
qed

lemma supports_handler:
  "MAIN_ADMIN_ID \<in> user_id ` set (supports db)
    \<Longrightarrow> MAIN_ADMIN_ID \<in> user_id ` set (supports (snd (handler db now rnd req)))"
proof (cases req)
  case (Add_support u ad)
  assume "MAIN_ADMIN_ID \<in> user_id ` set (supports db)"
  then show ?thesis
    by (simp add: Add_support add_support_def)
next
  case (Delete_support u ad)
  assume "MAIN_ADMIN_ID \<in> user_id ` set (supports db)"
  then show ?thesis
    by (auto simp: Delete_support delete_support_def)
next
  case (Create_app n u)
  assume "MAIN_ADMIN_ID \<in> user_id ` set (supports db)"
  then show ?thesis
    by (simp add: Create_app create_app_def Let_def)
next
  case (Delete_app n u)
  assume "MAIN_ADMIN_ID \<in> user_id ` set (supports db)"
  then show ?thesis
    by (simp add: Delete_app delete_app_def Let_def split: list.split)
next
  case (Create_key a p d f u)
  assume "MAIN_ADMIN_ID \<in> user_id ` set (supports db)"
  then show ?thesis
    by (simp add: Create_key create_key_def Let_def)
next
  case (Delete_key a k u)
  assume "MAIN_ADMIN_ID \<in> user_id ` set (supports db)"
  then show ?thesis
    by (simp add: Delete_key delete_key_def)
next
  case (Ban_key a k u)
  assume "MAIN_ADMIN_ID \<in> user_id ` set (supports db)"
  then show ?thesis
    by (simp add: Ban_key ban_key_def)
next
  case (Reset_hwid a k u)
  assume "MAIN_ADMIN_ID \<in> user_id ` set (supports db)"
  then show ?thesis
    by (simp add: Reset_hwid reset_hwid_def)
next
  case (Validate_key a k hw si)
  assume "MAIN_ADMIN_ID \<in> user_id ` set (supports db)"
  then show ?thesis
    by (simp add: Validate_key validate_key_def split: list.split option.split)
qed simp_all

lemma supports_reaches:
  "reaches db db' \<Longrightarrow> MAIN_ADMIN_ID \<in> user_id ` set (supports db)
    \<Longrightarrow> MAIN_ADMIN_ID \<in> user_id ` set (supports db')"
  by (induction rule: reaches.induct) (simp_all add: supports_handler)

lemma validate_key_first_used:
  assumes "i < length (keys db)" "first_used (keys db ! i) = Some t"
  shows "length (keys (snd (validate_key db now a k hw si))) = length (keys db) \<and>
         first_used (keys (snd (validate_key db now a k hw si)) ! i) = Some t"
  using assms by (simp add: validate_key_def bind_update_def split: list.split option.split)

lemma validate_all_first_used:
  assumes "i < length (keys db)" "first_used (keys db ! i) = Some t"
  shows "length (keys (validate_all db calls)) = length (keys db) \<and>
         first_used (keys (validate_all db calls) ! i) = Some t"
  using assms
proof (induction calls arbitrary: db)
  case Nil
  then show ?case by simp
next
  case (Cons c calls)
  obtain now a k hw si where c: "c = (now, a, k, hw, si)"
    by (cases c) auto
  let ?db = "snd (validate_key db now a k hw si)"
  have step: "length (keys ?db) = length (keys db)" "first_used (keys ?db ! i) = Some t"
    using validate_key_first_used[OF Cons.prems] by simp_all
  have "i < length (keys ?db)"
    using step(1) Cons.prems(1) by simp
  from Cons.IH[OF this step(2)] step(1) show ?case
    by (simp add: c)
qed

lemma reachable_bound_hwids:
  assumes "reachable db" "r \<in> set (keys db)"
  shows "hwid r = None \<or> (\<exists>hs. hwid r = Some (JSON_stringify hs))"
    and "\<exists>hs. bound_hwids r = Some hs"
proof -
  have "key_inv r"
    using reachable_row_fields(3)[OF assms] .
  then show h: "hwid r = None \<or> (\<exists>hs. hwid r = Some (JSON_stringify hs))"
    unfolding key_inv_def by blast
  then show "\<exists>hs. bound_hwids r = Some hs"
    by (auto simp: bound_hwids_def dest: bound_hwids_stringify)
qed

lemma validate_key_binds:
  assumes "reachable db" "r \<in> set (keys db)" "bound_hwids r = Some hs" "hw \<notin> set hs"
    and "success (fst (validate_key db now (api r) (key r) hw si))"
  shows "validate_key db now (api r) (key r) hw si =
      (jsonResponse 200 True ''Valid key'',
       db\<lparr>keys := map (\<lambda>x. if key x = key r \<and> api x = api r
              then bind_update (JSON_stringify (hs @ [hw])) (if si = [] then None else Some si) now x
              else x) (keys db)\<rparr>)"
proof -
  have hw: "hw \<noteq> []"
    using assms(5) by (auto simp: validate_key_def jsonResponse_def)
  show ?thesis
    using assms(3,4,5) unfolding validate_key_row[OF assms(1,2) hw]
    by (auto simp: jsonResponse_def server_error_def split: if_splits)
qed

subsection \<open>\<^verbatim>\<open>JSON.parse\<close> reads back every value that \<^verbatim>\<open>JSON.stringify\<close> wrote\<close>

lemma takeWhile_token:
  assumes "list_all P t" "case rest of [] \<Rightarrow> True | c # _ \<Rightarrow> \<not> P c"
  shows "takeWhile P (t @ rest) = t" "dropWhile P (t @ rest) = rest"
  using assms by (induction t) (auto split: list.splits)

lemma lex_number_token:
  assumes "list_all number_char t" "json_number t" "delimited rest"
  shows "lex_number (t @ rest) = Some (t, rest)"
  using takeWhile_token[of number_char t rest] assms
  by (simp add: lex_number_def delimited_def)

lemma json_number_nonempty: "json_number t \<Longrightarrow> t \<noteq> []"
  by (auto simp: json_number_def)

lemma number_char_not_structural:
  assumes "number_char c"
  shows "c \<noteq> CHR 0x22" "c \<noteq> CHR ''[''" "c \<noteq> CHR ''{''" "c \<noteq> CHR '']''" "c \<noteq> CHR ''}''"
    "c \<noteq> CHR ''n''" "c \<noteq> CHR ''t''" "c \<noteq> CHR ''f''" "\<not> JSONWhiteSpace c"
  using assms by (auto simp: number_char_def is_digit_def JSONWhiteSpace_def)

lemma delimited_punct:
  "delimited (CHR '']'' # r)" "delimited (CHR '','' # r)" "delimited (CHR ''}'' # r)" "delimited []"
  by (simp_all add: delimited_def number_char_def is_digit_def)

lemma ser_start:
  assumes "wf_json v"
  shows "\<exists>c r. ser v = c # r \<and> value_start c"
proof (cases v)
  case (JNumber t)
  then obtain c r where t: "t = c # r"
    using assms json_number_nonempty by (cases t) auto
  then have "number_char c"
    using assms JNumber by simp
  then show ?thesis
    using number_char_not_structural[of c] by (simp add: JNumber t value_start_def)
qed (simp_all add: value_start_def JSONWhiteSpace_def QuoteJSONString_def)

lemma skip_ws_start: "value_start c \<Longrightarrow> skip_ws (c # r) = c # r"
  by (simp add: skip_ws_def value_start_def)

lemma skip_ws_ser: "wf_json v \<Longrightarrow> skip_ws (ser v @ rest) = ser v @ rest"
  using ser_start[of v] skip_ws_start by fastforce

lemma roundtrips_JNull: "roundtrips JNull"
  unfolding roundtrips_def
proof (intro allI impI)
  fix n rest
  assume "length (ser JNull) \<le> n"
  then obtain m where "n = Suc m"
    by (cases n) auto
  then show "parse_value n (ser JNull @ rest) = Some (reparsed JNull, rest)"
    by simp
qed

lemma roundtrips_JNonFinite: "roundtrips JNonFinite"
  unfolding roundtrips_def
proof (intro allI impI)
  fix n rest
  assume "length (ser JNonFinite) \<le> n"
  then obtain m where "n = Suc m"
    by (cases n) auto
  then show "parse_value n (ser JNonFinite @ rest) = Some (reparsed JNonFinite, rest)"
    by simp
qed

lemma roundtrips_JBool: "roundtrips (JBool b)"
  unfolding roundtrips_def
proof (intro allI impI)
  fix n rest
  assume "length (ser (JBool b)) \<le> n"
  then obtain m where "n = Suc m"
    by (cases n) (auto split: if_splits)
  then show "parse_value n (ser (JBool b) @ rest) = Some (reparsed (JBool b), rest)"
    by simp
qed

lemma roundtrips_JString: "roundtrips (JString s)"
  unfolding roundtrips_def
proof (intro allI impI)
  fix n rest
  assume "length (ser (JString s)) \<le> n"
  then obtain m where "n = Suc m"
    by (cases n) (auto simp: QuoteJSONString_def)
  then show "parse_value n (ser (JString s) @ rest) = Some (reparsed (JString s), rest)"
    by (simp add: QuoteJSONString_def parse_chars_quoted)
qed

lemma roundtrips_JNumber:
  assumes "wf_json (JNumber t)"
  shows "roundtrips (JNumber t)"
  unfolding roundtrips_def
proof (intro allI impI)
  fix n rest
  assume len: "length (ser (JNumber t)) \<le> n" and d: "delimited rest"
  have wf: "list_all number_char t" "json_number t"
    using assms by simp_all
  obtain c r where t: "t = c # r"
    using json_number_nonempty[OF wf(2)] by (cases t) auto
  have c: "number_char c"
    using wf(1) t by simp
  obtain m where n: "n = Suc m"
    using len t by (cases n) auto
  have lex: "lex_number (c # r @ rest) = Some (c # r, rest)"
    using lex_number_token[OF wf d] t by simp
  show "parse_value n (ser (JNumber t) @ rest) = Some (reparsed (JNumber t), rest)"
    using number_char_not_structural[OF c] by (simp add: n t lex)
qed

lemma parse_elems_ser:
  assumes "\<And>v. v \<in> set vs \<Longrightarrow> wf_json v \<and> roundtrips v" "vs \<noteq> []"
    and "length (join_comma (map ser vs)) < n"
  shows "parse_elems n (join_comma (map ser vs) @ CHR '']'' # rest) = Some (map reparsed vs, rest)"
  using assms
proof (induction vs arbitrary: n)
  case Nil
  then show ?case by simp
next
  case (Cons v vs)
  obtain m where n: "n = Suc m"
    using Cons.prems(3) by (cases n) auto
  have v: "wf_json v" "roundtrips v"
    using Cons.prems(1) by simp_all
  show ?case
  proof (cases vs)
    case Nil
    have "parse_value m (ser v @ CHR '']'' # rest) = Some (reparsed v, CHR '']'' # rest)"
      using v(2) Cons.prems(3) unfolding roundtrips_def
      by (simp add: n Nil delimited_punct)
    then show ?thesis
      by (simp add: n Nil skip_ws_ser[OF v(1)] skip_ws_punct)
  next
    case (Cons w ws)
    let ?tail = "join_comma (map ser vs) @ CHR '']'' # rest"
    have len: "length (ser v) \<le> m" "length (join_comma (map ser vs)) < m"
      using Cons.prems(3) by (simp_all add: n Cons)
    have "parse_value m (ser v @ CHR '','' # ?tail) = Some (reparsed v, CHR '','' # ?tail)"
      using v(2) len(1) unfolding roundtrips_def by (simp add: delimited_punct)
    moreover have "parse_elems m ?tail = Some (map reparsed vs, rest)"
      using Cons.IH[OF _ _ len(2)] Cons.prems(1) Cons by simp
    ultimately show ?thesis
      using skip_ws_ser[OF v(1), of "CHR '','' # ?tail"]
      by (simp add: n Cons skip_ws_punct)
  qed
qed

lemma ser_JObject: "ser (JObject ms) = CHR ''{'' # join_comma (map ser_member ms) @ [CHR ''}'']"
proof -
  have "(\<lambda>(k, t). QuoteJSONString k @ CHR '':'' # t) \<circ> map_prod id ser = ser_member"
    by (auto simp: ser_member_def fun_eq_iff)
  then show ?thesis
    by simp
qed

declare ser.simps(7) [simp del]
declare ser_JObject [simp]

lemma parse_member_ser:
  assumes "wf_json v" "roundtrips v" "length (ser v) \<le> m" "delimited rest"
  shows "parse_string (skip_ws (ser_member (k, v) @ rest)) = Some (k, CHR '':'' # ser v @ rest) \<and>
     skip_ws (CHR '':'' # ser v @ rest) = CHR '':'' # ser v @ rest \<and>
     parse_value m (skip_ws (ser v @ rest)) = Some (reparsed v, rest)"
proof (intro conjI)
  show "parse_string (skip_ws (ser_member (k, v) @ rest)) = Some (k, CHR '':'' # ser v @ rest)"
    by (simp add: ser_member_def skip_ws_QuoteJSONString parse_string_QuoteJSONString)
  show "skip_ws (CHR '':'' # ser v @ rest) = CHR '':'' # ser v @ rest"
    by (simp add: skip_ws_def JSONWhiteSpace_def)
  show "parse_value m (skip_ws (ser v @ rest)) = Some (reparsed v, rest)"
    using assms unfolding roundtrips_def by (simp add: skip_ws_ser)
qed

lemma skip_ws_close: "skip_ws (CHR ''}'' # r) = CHR ''}'' # r"
  by (simp add: skip_ws_def JSONWhiteSpace_def)

lemma length_ser_member: "length (ser (snd m)) < length (ser_member m)"
  by (simp add: ser_member_def)

lemma parse_members_last:
  assumes "wf_json v" "roundtrips v" "length (ser v) \<le> m"
  shows "parse_members (Suc m) (ser_member (k, v) @ CHR ''}'' # rest) =
      Some ([(k, reparsed v)], rest)"
  using parse_member_ser[where k = k and rest = "CHR ''}'' # rest", OF assms delimited_punct(3)]
  by (simp add: skip_ws_close)

lemma parse_members_next:
  assumes "wf_json v" "roundtrips v" "length (ser v) \<le> m"
  shows "parse_members (Suc m) (ser_member (k, v) @ CHR '','' # t) =
      (case parse_members m t of
         None \<Rightarrow> None
       | Some (ms, r) \<Rightarrow> Some ((k, reparsed v) # ms, r))"
  using parse_member_ser[where k = k and rest = "CHR '','' # t", OF assms delimited_punct(2)]
  by (simp add: skip_ws_punct)

lemma parse_members_ser:
  assumes "\<And>m. m \<in> set ms \<Longrightarrow> wf_json (snd m) \<and> roundtrips (snd m)" "ms \<noteq> []"
    and "length (join_comma (map ser_member ms)) < n"
  shows "parse_members n (join_comma (map ser_member ms) @ CHR ''}'' # rest)
      = Some (map (map_prod id reparsed) ms, rest)"
  using assms
proof (induction ms arbitrary: n)
  case Nil
  then show ?case by simp
next
  case (Cons kv ms)
  obtain k v where kv: "kv = (k, v)"
    by (cases kv) auto
  obtain m where n: "n = Suc m"
    using Cons.prems(3) by (cases n) auto
  have v: "wf_json v" "roundtrips v"
    using Cons.prems(1)[of kv] kv by simp_all
  show ?case
  proof (cases ms)
    case Nil
    have len: "length (ser v) \<le> m"
      using Cons.prems(3) length_ser_member[of kv] by (simp add: n Nil kv)
    have "join_comma (map ser_member (kv # ms)) @ CHR ''}'' # rest =
        ser_member (k, v) @ CHR ''}'' # rest"
      by (simp add: Nil kv)
    then show ?thesis
      using parse_members_last[OF v len, of k rest] by (simp add: n Nil kv)
  next
    case (Cons w ws)
    let ?tail = "join_comma (map ser_member ms) @ CHR ''}'' # rest"
    have len: "length (ser v) \<le> m" "length (join_comma (map ser_member ms)) < m"
      using Cons.prems(3) length_ser_member[of kv] by (simp_all add: n Cons kv)
    have tail: "parse_members m ?tail = Some (map (map_prod id reparsed) ms, rest)"
      using Cons.prems(1) Cons by (intro Cons.IH[OF _ _ len(2)]) simp_all
    have split: "join_comma (map ser_member (kv # ms)) @ CHR ''}'' # rest =
        ser_member (k, v) @ CHR '','' # ?tail"
      by (simp add: Cons kv)
    show ?thesis
      unfolding split n parse_members_next[OF v len(1)] tail by (simp add: kv id_def)
  qed
qed

lemma join_comma_start:
  assumes "xs \<noteq> []" "hd xs = c # r"
  shows "\<exists>r'. join_comma xs = c # r'"
  using assms by (cases xs rule: join_comma.cases) auto

lemma roundtrips_JArray:
  assumes "\<And>v. v \<in> set vs \<Longrightarrow> wf_json v \<and> roundtrips v"
  shows "roundtrips (JArray vs)"
  unfolding roundtrips_def
proof (intro allI impI)
  fix n rest
  assume len: "length (ser (JArray vs)) \<le> n"
  then obtain m where n: "n = Suc m"
    by (cases n) auto
  show "parse_value n (ser (JArray vs) @ rest) = Some (reparsed (JArray vs), rest)"
  proof (cases vs)
    case Nil
    then show ?thesis
      by (simp add: n skip_ws_punct)
  next
    case (Cons v ws)
    obtain c r where c: "ser v = c # r" "value_start c"
      using ser_start[of v] assms Cons by auto
    obtain r' where j: "join_comma (map ser vs) = c # r'"
      using join_comma_start[of "map ser vs" c r] c(1) Cons by auto
    have ne: "take 1 (skip_ws (join_comma (map ser vs) @ CHR '']'' # rest)) \<noteq> '']''"
      using c(2) by (simp add: j skip_ws_start) (simp add: value_start_def)
    have "parse_elems m (join_comma (map ser vs) @ CHR '']'' # rest) = Some (map reparsed vs, rest)"
      using len by (intro parse_elems_ser assms) (simp_all add: n Cons)
    then show ?thesis
      using ne by (simp add: n)
  qed
qed

lemma roundtrips_JObject:
  assumes "\<And>m. m \<in> set ms \<Longrightarrow> wf_json (snd m) \<and> roundtrips (snd m)"
  shows "roundtrips (JObject ms)"
  unfolding roundtrips_def
proof (intro allI impI)
  fix n rest
  assume len: "length (ser (JObject ms)) \<le> n"
  then obtain m where n: "n = Suc m"
    by (cases n) auto
  show "parse_value n (ser (JObject ms) @ rest) = Some (reparsed (JObject ms), rest)"
  proof (cases ms)
    case Nil
    then show ?thesis
      by (simp add: n skip_ws_close)
  next
    case (Cons kv ws)
    obtain r' where j: "join_comma (map ser_member ms) = CHR 0x22 # r'"
      using join_comma_start[of "map ser_member ms" "CHR 0x22"] Cons
      by (auto simp: ser_member_def QuoteJSONString_def)
    have ne: "take 1 (skip_ws (join_comma (map ser_member ms) @ CHR ''}'' # rest)) \<noteq> ''}''"
      by (simp add: j skip_ws_def JSONWhiteSpace_def)
    have "parse_members m (join_comma (map ser_member ms) @ CHR ''}'' # rest)
        = Some (map (map_prod id reparsed) ms, rest)"
      using len by (intro parse_members_ser assms) (simp_all add: n Cons)
    then show ?thesis
      using ne by (simp add: n)
  qed
qed

lemma wf_json_roundtrips: "wf_json v \<Longrightarrow> roundtrips v"
proof (induction v)
  case (JArray vs)
  then show ?case
    by (intro roundtrips_JArray) (auto simp: list_all_iff)
next
  case (JObject ms)
  have "wf_json (snd m) \<and> roundtrips (snd m)" if "m \<in> set ms" for m
  proof -
    have "wf_json (snd m)"
      using JObject.prems that by (auto simp: list_all_iff)
    moreover have "snd m \<in> Basic_BNFs.snds m"
      by (cases m) simp
    ultimately show ?thesis
      using JObject.IH[OF that] by blast
  qed
  then show ?case
    by (intro roundtrips_JObject)
qed (simp_all add: roundtrips_JNull roundtrips_JBool roundtrips_JNumber roundtrips_JNonFinite
    roundtrips_JString)

theorem JSON_parse_value_ser:
  assumes "wf_json v"
  shows "JSON_parse_value (ser v) = Some (reparsed v)"
proof -
  have "parse_value (Suc (length (ser v))) (ser v @ []) = Some (reparsed v, [])"
    using wf_json_roundtrips[OF assms, unfolded roundtrips_def, rule_format,
        of "Suc (length (ser v))" "[]"]
    by (simp add: delimited_punct del: parse_value.simps)
  then show ?thesis
    using skip_ws_ser[OF assms, of "[]"]
    by (simp add: JSON_parse_value_def skip_ws_punct del: parse_value.simps)
qed

subsection \<open>The handler on any value\<close>

lemma JSON_stringify_values_strings:
  "JSON_stringify_values (map JString hs) = JSON_stringify hs"
  by (simp add: JSON_stringify_values_def JSON_stringify_def comp_def)

lemma wf_reparsed: "wf_json v \<Longrightarrow> wf_json (reparsed v)"
proof (induction v)
  case (JArray vs)
  then show ?case
    by (auto simp: list_all_iff)
next
  case (JObject ms)
  have keys: "map fst (map (map_prod id reparsed) ms) = map fst ms"
    by (induction ms) auto
  have "wf_json (reparsed (snd m))" if "m \<in> set ms" for m
  proof -
    have "wf_json (snd m)"
      using JObject.prems that by (auto simp: list_all_iff)
    moreover have "snd m \<in> Basic_BNFs.snds m"
      by (cases m) simp
    ultimately show ?thesis
      using JObject.IH[OF that] by blast
  qed
  then show ?case
    using JObject.prems keys by (auto simp: list_all_iff simp del: map_map)
qed simp_all

lemma ser_nonempty: "ser (JArray vs) \<noteq> []"
  by simp

lemma bound_values_ser:
  assumes "hwid r = Some (JSON_stringify_values vs)" "list_all wf_json vs"
  shows "bound_values r = Some (map reparsed vs)"
proof -
  have "wf_json (JArray vs)"
    using assms(2) by (simp add: list_all_iff)
  then have "JSON_parse_value (ser (JArray vs)) = Some (reparsed (JArray vs))"
    by (rule JSON_parse_value_ser)
  then show ?thesis
    using assms(1) by (simp add: bound_values_def JSON_stringify_values_def)
qed

lemma any_inv_bound_values:
  assumes "any_inv r"
  shows "\<exists>vs. bound_values r = Some vs \<and> list_all wf_json vs"
  using assms unfolding any_inv_def
proof
  assume "hwid r = None"
  then show ?thesis
    by (simp add: bound_values_def)
next
  assume "\<exists>vs. hwid r = Some (JSON_stringify_values vs) \<and> list_all wf_json vs"
  then obtain vs where vs: "hwid r = Some (JSON_stringify_values vs)" "list_all wf_json vs"
    by blast
  have "list_all wf_json (map reparsed vs)"
    using vs(2) wf_reparsed by (auto simp: list_all_iff)
  then show ?thesis
    using bound_values_ser[OF vs] by blast
qed

lemma any_db_inv_update:
  assumes "any_db_inv db" "\<And>r. any_inv r \<Longrightarrow> any_inv (f r)"
  shows "any_db_inv (db\<lparr>keys := map (\<lambda>r. if P r then f r else r) (keys db)\<rparr>)"
  using assms by (auto simp: any_db_inv_def list_all_iff)

lemma any_db_inv_filter:
  assumes "any_db_inv db"
  shows "any_db_inv (db\<lparr>keys := filter P (keys db)\<rparr>)"
  using assms by (auto simp: any_db_inv_def list_all_iff)

lemma any_db_inv_other:
  assumes "any_db_inv db" "keys db' = keys db"
  shows "any_db_inv db'"
  using assms by (simp add: any_db_inv_def)

lemma any_db_inv_create_app: "any_db_inv db \<Longrightarrow> any_db_inv (snd (create_app db rnd n u))"
  by (rule any_db_inv_other[where db = db]) (simp_all add: create_app_def Let_def)

lemma any_db_inv_add_support: "any_db_inv db \<Longrightarrow> any_db_inv (snd (add_support db u ad))"
  by (rule any_db_inv_other[where db = db]) (simp_all add: add_support_def)

lemma any_db_inv_delete_support: "any_db_inv db \<Longrightarrow> any_db_inv (snd (delete_support db u ad))"
  by (rule any_db_inv_other[where db = db]) (simp_all add: delete_support_def)

lemma any_db_inv_delete_app:
  assumes "any_db_inv db"
  shows "any_db_inv (snd (delete_app db n u))"
proof -
  have "any_db_inv (db\<lparr>applications := apps, keys := filter P (keys db)\<rparr>)" for apps P
    using assms by (auto simp: any_db_inv_def list_all_iff)
  then show ?thesis
    using assms by (simp add: delete_app_def Let_def split: list.split)
qed

lemma any_db_inv_create_key:
  assumes "any_db_inv db"
  shows "any_db_inv (snd (create_key db now a p d f u))"
proof -
  have "any_db_inv (db\<lparr>keys := keys db @ [new_key_row k a p e l]\<rparr>)" for k e l
    using assms by (simp add: any_db_inv_def any_inv_def new_key_row_def)
  then show ?thesis
    using assms by (simp add: create_key_def Let_def)
qed

lemma any_db_inv_delete_key: "any_db_inv db \<Longrightarrow> any_db_inv (snd (delete_key db a k u))"
  by (simp add: delete_key_def any_db_inv_filter)

lemma any_db_inv_ban_key:
  assumes "any_db_inv db"
  shows "any_db_inv (snd (ban_key db a k u))"
proof -
  have "any_db_inv (db\<lparr>keys := map (\<lambda>r. if key r = k \<and> api r = a
      then r\<lparr>banned := True\<rparr> else r) (keys db)\<rparr>)"
    using assms by (rule any_db_inv_update) (simp add: any_inv_def)
  then show ?thesis
    using assms by (simp add: ban_key_def)
qed

lemma any_db_inv_reset_hwid:
  assumes "any_db_inv db"
  shows "any_db_inv (snd (reset_hwid db a k u))"
proof -
  have "any_db_inv (db\<lparr>keys := map (\<lambda>r. if key r = k \<and> api r = a
      then r\<lparr>hwid := None, used := False, system_info := None, first_used := None\<rparr>
      else r) (keys db)\<rparr>)"
    using assms by (rule any_db_inv_update) (simp add: any_inv_def)
  then show ?thesis
    using assms by (simp add: reset_hwid_def)
qed

lemma any_db_inv_validate_key_any:
  assumes "any_db_inv db" "wf_json hw"
  shows "any_db_inv (snd (validate_key_any db now a k hw si))"
proof -
  have upd: "any_db_inv (db\<lparr>keys := map (\<lambda>r. if key r = k \<and> api r = a
        then bind_update (JSON_stringify_values (vs @ [hw])) info now r else r) (keys db)\<rparr>)"
    if f: "filter (\<lambda>r. key r = k \<and> api r = a) (keys db) = v # rest"
      and b: "bound_values v = Some vs"
    for v rest vs info
  proof -
    have "v \<in> set (filter (\<lambda>r. key r = k \<and> api r = a) (keys db))"
      using f by simp
    then have "any_inv v"
      using assms(1) by (simp add: any_db_inv_def list_all_iff)
    then have "list_all wf_json vs"
      using any_inv_bound_values[of v] b by auto
    then have "list_all wf_json (vs @ [hw])"
      using assms(2) by simp
    then have "any_inv (bind_update (JSON_stringify_values (vs @ [hw])) info now r)" for r
      unfolding any_inv_def bind_update_def by auto
    then show ?thesis
      using assms(1) by (intro any_db_inv_update) simp_all
  qed
  show ?thesis
    using assms(1) upd by (auto simp: validate_key_any_def split: list.split option.split)
qed

lemma wf_json_JString: "wf_json (JString s)"
  by simp

lemma any_db_inv_handler_any:
  assumes "any_db_inv db" "wf_request req"
  shows "any_db_inv (snd (handler_any db now rnd req))"
proof (cases req)
  case (Validate_key_any a k hw si)
  then show ?thesis
    using assms by (simp add: any_db_inv_validate_key_any)
next
  case (Request r)
  show ?thesis
    using assms(1) unfolding Request
    by (cases r)
      (simp_all add: any_db_inv_create_app any_db_inv_add_support any_db_inv_delete_support
        any_db_inv_delete_app any_db_inv_create_key any_db_inv_delete_key any_db_inv_ban_key
        any_db_inv_reset_hwid any_db_inv_validate_key_any)
qed

lemma any_db_inv_init: "any_db_inv initializeTables"
  by (simp add: any_db_inv_def initializeTables_def)

lemma reaches_any_inv: "reaches_any db db' \<Longrightarrow> any_db_inv db \<Longrightarrow> any_db_inv db'"
  by (induction rule: reaches_any.induct) (simp_all add: any_db_inv_handler_any)

lemma reachable_any_inv: "reachable_any db \<Longrightarrow> any_db_inv db"
  unfolding reachable_any_def using reaches_any_inv any_db_inv_init by blast

text \<open>On every database that requests with string hardware ids lead to, the validator on
  any value and the validator on strings agree.\<close>

lemma bound_values_strings:
  assumes "hwid r = Some (JSON_stringify hs)"
  shows "bound_values r = Some (map JString hs)"
proof -
  have "list_all wf_json (map JString hs)"
    by (simp add: list_all_iff)
  moreover have "map reparsed (map JString hs) = map JString hs"
    by simp
  ultimately show ?thesis
    using bound_values_ser[of r "map JString hs"] assms
    by (simp add: JSON_stringify_values_strings)
qed

lemma key_inv_bound_both:
  assumes "key_inv r"
  shows "\<exists>hs. bound_hwids r = Some hs \<and> bound_values r = Some (map JString hs)"
proof -
  have "hwid r = None \<or> (\<exists>hs. hwid r = Some (JSON_stringify hs))"
    using assms unfolding key_inv_def by blast
  then show ?thesis
  proof
    assume "hwid r = None"
    then show ?thesis
      by (simp add: bound_hwids_def bound_values_def)
  next
    assume "\<exists>hs. hwid r = Some (JSON_stringify hs)"
    then obtain hs where "hwid r = Some (JSON_stringify hs)"
      by blast
    then show ?thesis
      using bound_hwids_stringify bound_values_strings by blast
  qed
qed

lemma validate_key_any_string:
  assumes "reachable db"
  shows "validate_key_any db now a k (JString hw) si = validate_key db now a k hw si"
proof (cases "filter (\<lambda>r. key r = k \<and> api r = a) (keys db)")
  case Nil
  then show ?thesis
    by (simp add: validate_key_any_def validate_key_def truthy_def)
next
  case (Cons v rest)
  then have "v \<in> set (filter (\<lambda>r. key r = k \<and> api r = a) (keys db))"
    by simp
  then have "v \<in> set (keys db)"
    by simp
  then obtain hs where hs: "bound_hwids v = Some hs" "bound_values v = Some (map JString hs)"
    using key_inv_bound_both reachable_row_fields(3)[OF assms] by blast
  have inc: "array_includes (map JString hs) (JString hw) \<longleftrightarrow> hw \<in> set hs"
    by (auto simp: array_includes_def)
  have str: "JSON_stringify_values (map JString hs @ [JString hw]) = JSON_stringify (hs @ [hw])"
    using JSON_stringify_values_strings[of "hs @ [hw]"] by simp
  show ?thesis
    by (simp add: validate_key_any_def validate_key_def truthy_def Cons hs inc str)
qed

lemma handler_any_typed:
  assumes "reachable db"
  shows "handler_any db now rnd (Request req) = handler db now rnd req"
  using validate_key_any_string[OF assms] by (cases req) simp_all

lemma reaches_reaches_any:
  "reaches db db' \<Longrightarrow> db = initializeTables \<Longrightarrow> reaches_any initializeTables db'"
proof (induction rule: reaches.induct)
  case (reaches_refl db)
  then show ?case
    by (simp add: reaches_any_refl)
next
  case (reaches_step db db' now rnd req)
  have r: "reachable db'"
    using reaches_step by (simp add: reachable_def)
  have "reaches_any initializeTables (snd (handler_any db' now rnd (Request req)))"
    using reaches_step by (intro reaches_any_step) simp_all
  then show ?case
    by (simp add: handler_any_typed[OF r])
qed

lemma reachable_reachable_any: "reachable db \<Longrightarrow> reachable_any db"
  unfolding reachable_def reachable_any_def using reaches_reaches_any by blast

lemma reachable_any_step:
  "reachable_any db \<Longrightarrow> wf_request req \<Longrightarrow> reachable_any (snd (handler_any db now rnd req))"
  unfolding reachable_any_def by (rule reaches_any_step)

lemma reachable_any_scenario_number: "reachable_any scenario_number"
  unfolding scenario_number_def
  by (intro reachable_any_step reachable_reachable_any reachable_scenario_key)
    (simp, code_simp)

lemma reachable_any_scenario_mixed: "reachable_any scenario_mixed"
  unfolding scenario_mixed_def
  by (intro reachable_any_step reachable_any_scenario_number) simp

lemma reachable_any_bound_values:
  assumes "reachable_any db" "r \<in> set (keys db)"
  shows "hwid r = None \<or> (\<exists>vs. hwid r = Some (JSON_stringify_values vs) \<and> list_all wf_json vs)"
    and "\<exists>vs. bound_values r = Some vs"
proof -
  have inv: "any_inv r"
    using reachable_any_inv[OF assms(1)] assms(2) by (simp add: any_db_inv_def list_all_iff)
  then show "hwid r = None \<or>
      (\<exists>vs. hwid r = Some (JSON_stringify_values vs) \<and> list_all wf_json vs)"
    by (simp add: any_inv_def)
  show "\<exists>vs. bound_values r = Some vs"
    using any_inv_bound_values[OF inv] by blast
qed

lemma not_stringify_of_strings: "JSON_stringify hs \<noteq> ''[5]''"
proof
  assume "JSON_stringify hs = ''[5]''"
  then have "JSON_parse ''[5]'' = Some hs"
    using JSON_parse_stringify[of hs] by simp
  moreover have "JSON_parse ''[5]'' = None"
    by code_simp
  ultimately show False
    by simp
qed

section \<open>The claims\<close>

subsection \<open>C1: the device limit\<close>




subsection \<open>C2: a banned key\<close>

text \<open>
  C2. For every key whose \<^verbatim>\<open>banned\<close> flag is set, every \<^verbatim>\<open>validate_key\<close> request for that
  key that carries a hardware id is answered \<^verbatim>\<open>Key banned\<close> and changes nothing, whatever
  the hardware id, the clock, the expiration of the key and the hardware ids bound to it:
  the ban is checked before the expiration, the bound ids and the device limit.
\<close>

theorem banned_key_always_rejected:
  assumes "reachable db" "r \<in> set (keys db)" "banned r" "hw \<noteq> []"
  shows "handler db now rnd (Validate_key (api r) (key r) hw si) =
           (jsonResponse 200 False ''Key banned'', db)"
  using assms by (simp add: validate_key_row)

text \<open>On the banned key, the bound id \<^verbatim>\<open>H1\<close> before the expiration and a new id after it.\<close>

theorem banned_key_always_rejected_witness:
  "reachable scenario_banned \<and>
   handler scenario_banned 7 []
     (Validate_key ''api_abcdef'' ''( {prefix}- ){generateKey()}'' ''H1'' []) =
       (jsonResponse 200 False ''Key banned'', scenario_banned) \<and>
   handler scenario_banned 2592000001 []
     (Validate_key ''api_abcdef'' ''( {prefix}- ){generateKey()}'' ''H7'' []) =
       (jsonResponse 200 False ''Key banned'', scenario_banned)"
proof -
  let ?r = "scenario_row (Some (JSON_stringify [''H1''])) True True 2 (Some ''Win10'') (Some 5)"
  have rin: "?r \<in> set (keys scenario_banned)"
    by (simp add: keys_scenario_banned)
  have b: "banned ?r"
    by (simp add: scenario_row_sel)
  show ?thesis
    using banned_key_always_rejected[OF reachable_scenario_banned rin b,
        where hw = "''H1''" and now = 7 and rnd = "[]" and si = "[]"]
      banned_key_always_rejected[OF reachable_scenario_banned rin b,
        where hw = "''H7''" and now = 2592000001 and rnd = "[]" and si = "[]"]
      reachable_scenario_banned
    by (simp add: scenario_row_sel)
qed

subsection \<open>C3: reset, then validate\<close>

text \<open>
  C3, as amended. For every key that is not banned: after a \<^verbatim>\<open>reset_hwid\<close> of the key that
  succeeded, a \<^verbatim>\<open>validate_key\<close> request for it has the same response and leaves the same
  tables as the same request on the tables in which the row of the key is the row that
  \<^verbatim>\<open>create_key\<close> writes for its key string, application, prefix, expiration and device
  limit.
\<close>

theorem reset_then_validate_as_fresh:
  assumes "reachable db" "r \<in> set (keys db)" "\<not> banned r"
    and "handler db now0 rnd0 (Reset_hwid (api r) (key r) uid) = (resp0, db0)" "success resp0"
  shows "handler db0 now rnd (Validate_key (api r) (key r) hw si) =
         handler (db\<lparr>keys := map (\<lambda>x. if key x = key r \<and> api x = api r
                                      then fresh_key x else x) (keys db)\<rparr>)
           now rnd (Validate_key (api r) (key r) hw si)"
proof -
  have d: "distinct (map key (keys db))"
    using reachable_db_inv[OF assms(1)] by (simp add: db_inv_def)
  have same: "(if key x = key r \<and> api x = api r
          then x\<lparr>hwid := None, used := False, system_info := None, first_used := None\<rparr>
          else x) =
        (if key x = key r \<and> api x = api r then fresh_key x else x)"
    if x: "x \<in> set (keys db)" for x
  proof (cases "key x = key r \<and> api x = api r")
    case True
    then have "x = r"
      using d x assms(2) by (metis distinct_map inj_onD)
    then show ?thesis
      using reset_row_fresh[OF reachable_row_fields(3)[OF assms(1,2)] assms(3)] by simp
  next
    case False
    then show ?thesis by auto
  qed
  have "db0 = db\<lparr>keys := map (\<lambda>x. if key x = key r \<and> api x = api r
          then x\<lparr>hwid := None, used := False, system_info := None, first_used := None\<rparr>
          else x) (keys db)\<rparr>"
    using assms(4,5) by (auto simp: reset_hwid_def jsonResponse_def split: if_splits)
  also have "\<dots> = db\<lparr>keys := map (\<lambda>x. if key x = key r \<and> api x = api r
                                      then fresh_key x else x) (keys db)\<rparr>"
    using same by (simp cong: map_cong)
  finally show ?thesis by simp
qed

text \<open>The key of limit 2 that holds \<^verbatim>\<open>H1\<close> is reset by its owner at time 8; at time 9 the
  hardware id \<^verbatim>\<open>H9\<close> is accepted as on the key when it was issued.\<close>

theorem reset_then_validate_as_fresh_witness:
  "reachable scenario_bound \<and>
   success (fst (handler scenario_bound 8 []
     (Reset_hwid ''api_abcdef'' ''( {prefix}- ){generateKey()}'' ''U1''))) \<and>
   handler (snd (handler scenario_bound 8 []
       (Reset_hwid ''api_abcdef'' ''( {prefix}- ){generateKey()}'' ''U1''))) 9 []
     (Validate_key ''api_abcdef'' ''( {prefix}- ){generateKey()}'' ''H9'' []) =
   handler (scenario_key ''2'') 9 []
     (Validate_key ''api_abcdef'' ''( {prefix}- ){generateKey()}'' ''H9'' [])"
proof -
  let ?r = "scenario_row (Some (JSON_stringify [''H1''])) False True 2 (Some ''Win10'') (Some 5)"
  let ?reset = "handler scenario_bound 8 []
     (Reset_hwid ''api_abcdef'' ''( {prefix}- ){generateKey()}'' ''U1'')"
  have rin: "?r \<in> set (keys scenario_bound)"
    by (simp add: keys_scenario_bound)
  have nb: "\<not> banned ?r"
    by (simp add: scenario_row_sel)
  have ok: "success (fst ?reset)"
    by code_simp
  have run: "handler scenario_bound 8 [] (Reset_hwid (api ?r) (key ?r) ''U1'') = (fst ?reset, snd ?reset)"
    by (simp add: scenario_row_sel)
  have fresh: "scenario_bound\<lparr>keys := map (\<lambda>x. if key x = ''( {prefix}- ){generateKey()}'' \<and>
        api x = ''api_abcdef'' then fresh_key x else x) (keys scenario_bound)\<rparr> =
      scenario_key ''2''"
    by code_simp
  show ?thesis
    using reset_then_validate_as_fresh[OF reachable_scenario_bound rin nb run ok,
        where hw = "''H9''" and now = 9 and rnd = "[]" and si = "[]"]
      reachable_scenario_bound ok
    by (simp add: fresh scenario_row_sel)
qed

text \<open>
  C3 as stated fails on a banned key, which stays banned through the reset: the banned
  key is reset and then refuses \<^verbatim>\<open>H9\<close>, which the freshly issued key with the same key
  string, application, expiration and device limit accepts.
\<close>

theorem banned_reset_counterexample:
  "fst (handler scenario_banned 8 []
     (Reset_hwid ''api_abcdef'' ''( {prefix}- ){generateKey()}'' ''U1'')) =
     jsonResponse 200 True ''HWID reset'' \<and>
   fst (handler (snd (handler scenario_banned 8 []
       (Reset_hwid ''api_abcdef'' ''( {prefix}- ){generateKey()}'' ''U1''))) 9 []
     (Validate_key ''api_abcdef'' ''( {prefix}- ){generateKey()}'' ''H9'' [])) =
     jsonResponse 200 False ''Key banned'' \<and>
   fst (handler (scenario_key ''2'') 9 []
     (Validate_key ''api_abcdef'' ''( {prefix}- ){generateKey()}'' ''H9'' [])) =
     jsonResponse 200 True ''Valid key''"
  by code_simp

subsection \<open>C4: the first-use timestamp\<close>

text \<open>
  C4. Once \<^verbatim>\<open>first_used\<close> of a key holds a timestamp, no sequence of \<^verbatim>\<open>validate_key\<close>
  requests changes it. A \<^verbatim>\<open>validate_key\<close> request that is accepted and binds a new hardware
  id writes the clock value into \<^verbatim>\<open>first_used\<close> when the column is NULL, and leaves the
  column as it is otherwise.
\<close>

theorem first_used_written_once:
  assumes "reachable db" "i < length (keys db)" "r = keys db ! i"
  shows "(first_used r = Some t \<longrightarrow>
            length (keys (validate_all db calls)) = length (keys db) \<and>
            first_used (keys (validate_all db calls) ! i) = Some t) \<and>
         (bound_hwids r = Some hs \<and> hw \<notin> set hs \<and>
          success (fst (handler db now rnd (Validate_key (api r) (key r) hw si))) \<longrightarrow>
            first_used (keys (snd (handler db now rnd (Validate_key (api r) (key r) hw si))) ! i) =
              Some (case first_used r of None \<Rightarrow> now | Some t' \<Rightarrow> t'))"
proof (intro conjI impI)
  assume "first_used r = Some t"
  then show "length (keys (validate_all db calls)) = length (keys db)"
    "first_used (keys (validate_all db calls) ! i) = Some t"
    using validate_all_first_used[of i db t calls] assms(2,3) by simp_all
next
  assume b: "bound_hwids r = Some hs \<and> hw \<notin> set hs \<and>
          success (fst (handler db now rnd (Validate_key (api r) (key r) hw si)))"
  have rin: "r \<in> set (keys db)"
    using assms(2,3) by simp
  have v: "validate_key db now (api r) (key r) hw si =
      (jsonResponse 200 True ''Valid key'',
       db\<lparr>keys := map (\<lambda>x. if key x = key r \<and> api x = api r
              then bind_update (JSON_stringify (hs @ [hw])) (if si = [] then None else Some si) now x
              else x) (keys db)\<rparr>)"
    using b by (intro validate_key_binds[OF assms(1) rin]) simp_all
  have "keys (snd (handler db now rnd (Validate_key (api r) (key r) hw si))) ! i =
      bind_update (JSON_stringify (hs @ [hw])) (if si = [] then None else Some si) now r"
    unfolding handler.simps v using assms(2) assms(3)[symmetric] by simp
  then show "first_used (keys (snd (handler db now rnd (Validate_key (api r) (key r) hw si))) ! i) =
              Some (case first_used r of None \<Rightarrow> now | Some t' \<Rightarrow> t')"
    by (simp add: bind_update_def split: option.split)
qed

text \<open>The key of limit 2 is first used at time 5 by \<^verbatim>\<open>H1\<close>; \<^verbatim>\<open>H2\<close> is bound at time 7 and
  the timestamp stays 5.\<close>

theorem first_used_written_once_witness:
  "reachable (scenario_key ''2'') \<and> reachable scenario_bound \<and>
   first_used (keys (scenario_key ''2'') ! 0) = None \<and>
   first_used (keys scenario_bound ! 0) = Some 5 \<and>
   map bound_hwids (keys (validate_all scenario_bound
     [(7, ''api_abcdef'', ''( {prefix}- ){generateKey()}'', ''H2'', [])])) =
     [Some [''H1'', ''H2'']] \<and>
   first_used (keys (validate_all scenario_bound
     [(7, ''api_abcdef'', ''( {prefix}- ){generateKey()}'', ''H2'', [])]) ! 0) = Some 5"
proof -
  let ?r0 = "scenario_row None False False 2 None None"
  let ?r1 = "scenario_row (Some (JSON_stringify [''H1''])) False True 2 (Some ''Win10'') (Some 5)"
  let ?calls = "[(7, ''api_abcdef'', ''( {prefix}- ){generateKey()}'', ''H2'', [])]"
  have sel0: "api ?r0 = ''api_abcdef''" "key ?r0 = ''( {prefix}- ){generateKey()}''"
    "first_used ?r0 = None"
    by (simp_all add: scenario_row_sel)
  have i0: "0 < length (keys (scenario_key ''2''))" and r0: "?r0 = keys (scenario_key ''2'') ! 0"
    by (simp_all add: keys_scenario_key)
  have b0: "bound_hwids ?r0 = Some []"
    by (simp add: bound_hwids_def scenario_row_sel)
  have nin: "''H1'' \<notin> set ([] :: string list)"
    by simp
  have ok: "success (fst (handler (scenario_key ''2'') 5 []
      (Validate_key (api ?r0) (key ?r0) ''H1'' ''Win10'')))"
    unfolding sel0 by code_simp
  have "first_used (keys (snd (handler (scenario_key ''2'') 5 []
      (Validate_key (api ?r0) (key ?r0) ''H1'' ''Win10''))) ! 0) =
      Some (case first_used ?r0 of None \<Rightarrow> 5 | Some t' \<Rightarrow> t')"
    using first_used_written_once[OF reachable_scenario_key i0 r0, where hs = "[]"
        and hw = "''H1''" and now = 5 and rnd = "[]" and si = "''Win10''"] b0 nin ok
    by blast
  then have set_once: "first_used (keys scenario_bound ! 0) = Some 5"
    unfolding sel0 scenario_bound_def by simp
  have i1: "0 < length (keys scenario_bound)" and r1: "?r1 = keys scenario_bound ! 0"
    by (simp_all add: keys_scenario_bound)
  have f1: "first_used ?r1 = Some 5"
    by (simp add: scenario_row_sel)
  have kept: "first_used (keys (validate_all scenario_bound ?calls) ! 0) = Some 5"
    using first_used_written_once[OF reachable_scenario_bound i1 r1, where t = 5
        and calls = ?calls] f1
    by blast
  have two: "map bound_hwids (keys (validate_all scenario_bound ?calls)) =
     [Some [''H1'', ''H2'']]"
    by code_simp
  have none: "first_used (keys (scenario_key ''2'') ! 0) = None"
    using r0[symmetric] sel0(3) by simp
  show ?thesis
    using reachable_scenario_key[of "''2''"] reachable_scenario_bound none set_once two kept
    by blast
qed

subsection \<open>C5: the permission resolver\<close>

text \<open>
  C5. \<^verbatim>\<open>checkAppPermission\<close> applies three rules in order, the first that matches deciding:
  the super-admin id has permission and is admin; else a user id of the support table has
  permission, whatever the API key, and is not admin; else the user has permission exactly
  when some application has the given API key and the user as its creator, and is not
  admin.
\<close>

theorem checkAppPermission_rules:
  "checkAppPermission db uid apikey =
     (if uid = MAIN_ADMIN_ID then \<lparr>hasPermission = True, isAdmin = True\<rparr>
      else if uid \<in> user_id ` set (supports db) then \<lparr>hasPermission = True, isAdmin = False\<rparr>
      else \<lparr>hasPermission =
              (\<exists>a \<in> set (applications db). api_key a = apikey \<and> created_by a = uid),
            isAdmin = False\<rparr>)"
proof -
  have s: "length (filter (\<lambda>s. user_id s = uid) (supports db)) > 0
      \<longleftrightarrow> uid \<in> user_id ` set (supports db)"
    by (auto simp: filter_empty_conv)
  have a: "length (filter (\<lambda>a. api_key a = apikey \<and> created_by a = uid) (applications db)) > 0
      \<longleftrightarrow> (\<exists>a \<in> set (applications db). api_key a = apikey \<and> created_by a = uid)"
    by (auto simp: filter_empty_conv)
  show ?thesis
    unfolding checkAppPermission_def checkIfAdmin_def Let_def s a by simp
qed

text \<open>After \<^verbatim>\<open>U1\<close> registered its application: the super-admin, the owner with its own API
  key, and the owner with another API key.\<close>

theorem checkAppPermission_rules_witness:
  "checkAppPermission scenario_app ''techdavisk007'' ''api_zzz'' =
     \<lparr>hasPermission = True, isAdmin = True\<rparr> \<and>
   checkAppPermission scenario_app ''U1'' ''api_abcdef'' =
     \<lparr>hasPermission = True, isAdmin = False\<rparr> \<and>
   checkAppPermission scenario_app ''U1'' ''api_zzz'' =
     \<lparr>hasPermission = False, isAdmin = False\<rparr>"
proof -
  have apps: "applications scenario_app =
      [\<lparr>name = ''Foo'', api_key = ''api_abcdef'', created_by = ''U1''\<rparr>]"
    by code_simp
  have sup: "supports scenario_app = [\<lparr>user_id = ''techdavisk007'', added_by = ''system''\<rparr>]"
    by code_simp
  show ?thesis
    using checkAppPermission_rules[of scenario_app "''techdavisk007''" "''api_zzz''"]
      checkAppPermission_rules[of scenario_app "''U1''" "''api_abcdef''"]
      checkAppPermission_rules[of scenario_app "''U1''" "''api_zzz''"]
    by (simp add: apps sup MAIN_ADMIN_ID_def)
qed

subsection \<open>C6: the super-admin stays in the support table\<close>

text \<open>
  C6. Whatever requests are handled, by whatever requester, the super-admin id stays in
  the support table once it is there; every \<^verbatim>\<open>delete_support\<close> request for the super-admin
  id fails and leaves the tables unchanged, whoever asks.
\<close>

theorem main_admin_never_removed:
  assumes "reaches db db'" "MAIN_ADMIN_ID \<in> user_id ` set (supports db)"
  shows "MAIN_ADMIN_ID \<in> user_id ` set (supports db') \<and>
         \<not> success (fst (handler db' now rnd (Delete_support MAIN_ADMIN_ID admin))) \<and>
         snd (handler db' now rnd (Delete_support MAIN_ADMIN_ID admin)) = db'"
  using supports_reaches[OF assms] by (simp add: delete_support_def jsonResponse_def)

text \<open>From the seeded tables, after the requests that lead to the banned key: the
  super-admin asks for its own removal.\<close>

theorem main_admin_never_removed_witness:
  "reaches initializeTables scenario_banned \<and>
   MAIN_ADMIN_ID \<in> user_id ` set (supports initializeTables) \<and>
   MAIN_ADMIN_ID \<in> user_id ` set (supports scenario_banned) \<and>
   handler scenario_banned 9 [] (Delete_support MAIN_ADMIN_ID MAIN_ADMIN_ID) =
     (jsonResponse 400 False ''Cannot delete main admin'', scenario_banned)"
proof -
  have r: "reaches initializeTables scenario_banned"
    using reachable_scenario_banned by (simp add: reachable_def)
  have i: "MAIN_ADMIN_ID \<in> user_id ` set (supports initializeTables)"
    by (simp add: initializeTables_def)
  have d: "fst (handler scenario_banned 9 [] (Delete_support MAIN_ADMIN_ID MAIN_ADMIN_ID)) =
      jsonResponse 400 False ''Cannot delete main admin''"
    by (simp add: delete_support_def checkIfAdmin_def MAIN_ADMIN_ID_def)
  show ?thesis
    using main_admin_never_removed[OF r i, of 9 "[]" MAIN_ADMIN_ID] r i d
    by (simp add: prod_eq_iff)
qed

subsection \<open>C7: the stored device limit\<close>

text \<open>
  C7, as amended. A \<^verbatim>\<open>create_key\<close> request that succeeds appends one row, whose device
  limit is 1 when the \<^verbatim>\<open>device_limit\<close> field is absent, when \<^verbatim>\<open>parseInt\<close> finds no number
  in it, and when it parses to 0; when it parses to another integer, negative ones
  included, that integer is stored.
\<close>

theorem create_key_device_limit:
  assumes "handler db now rnd (Create_key a pfx days dl uid) = (resp, db')" "success resp"
  shows "\<exists>row. keys db' = keys db @ [row] \<and>
           (dl = None \<longrightarrow> device_limit row = Some 1) \<and>
           (\<forall>s. dl = Some s \<and> parseInt s = None \<longrightarrow> device_limit row = Some 1) \<and>
           (\<forall>s. dl = Some s \<and> parseInt s = Some 0 \<longrightarrow> device_limit row = Some 1) \<and>
           (\<forall>s n. dl = Some s \<and> parseInt s = Some n \<and> n \<noteq> 0 \<longrightarrow> device_limit row = Some n)"
proof -
  define row where "row = new_key_row ''( {prefix}- ){generateKey()}'' a pfx
      (now + days * 86400000) (ck_limit dl)"
  have "db' = db\<lparr>keys := keys db @ [row]\<rparr>"
    using assms by (auto simp: create_key_def Let_def row_def jsonResponse_def server_error_def
        split: if_splits)
  moreover have "device_limit row = Some (ck_limit dl)"
    by (simp add: row_def new_key_row_def)
  ultimately show ?thesis
    by (intro exI[of _ row]) (auto simp: ck_limit_def)
qed

text \<open>\<^verbatim>\<open>U1\<close> issues a key with \<^verbatim>\<open>device_limit\<close> 0, and one with no \<^verbatim>\<open>device_limit\<close>: both
  are stored with limit 1.\<close>

theorem create_key_device_limit_witness:
  "success (fst (handler scenario_app 0 [] (Create_key ''api_abcdef'' ''PRO'' 30 (Some ''0'') ''U1''))) \<and>
   device_limit (last (keys (snd (handler scenario_app 0 []
     (Create_key ''api_abcdef'' ''PRO'' 30 (Some ''0'') ''U1''))))) = Some 1 \<and>
   success (fst (handler scenario_app 0 [] (Create_key ''api_abcdef'' ''PRO'' 30 None ''U1''))) \<and>
   device_limit (last (keys (snd (handler scenario_app 0 []
     (Create_key ''api_abcdef'' ''PRO'' 30 None ''U1''))))) = Some 1"
proof -
  let ?zero = "handler scenario_app 0 [] (Create_key ''api_abcdef'' ''PRO'' 30 (Some ''0'') ''U1'')"
  let ?none = "handler scenario_app 0 [] (Create_key ''api_abcdef'' ''PRO'' 30 None ''U1'')"
  have ok0: "success (fst ?zero)" and ok1: "success (fst ?none)"
    by code_simp+
  have p: "parseInt ''0'' = Some 0"
    by code_simp
  obtain row0 where row0: "keys (snd ?zero) = keys scenario_app @ [row0]"
    "\<forall>s. Some ''0'' = Some s \<and> parseInt s = Some 0 \<longrightarrow> device_limit row0 = Some 1"
    using create_key_device_limit[OF prod.collapse[symmetric] ok0] by blast
  obtain row1 where row1: "keys (snd ?none) = keys scenario_app @ [row1]"
    "(None :: string option) = None \<longrightarrow> device_limit row1 = Some 1"
    using create_key_device_limit[OF prod.collapse[symmetric] ok1] by blast
  have d0: "device_limit row0 = Some 1"
    using row0(2) p by blast
  have d1: "device_limit row1 = Some 1"
    using row1(2) by blast
  have l0: "last (keys (snd ?zero)) = row0"
    unfolding row0(1) by (rule last_snoc)
  have l1: "last (keys (snd ?none)) = row1"
    unfolding row1(1) by (rule last_snoc)
  show ?thesis
    unfolding l0 l1 using ok0 ok1 d0 d1 by blast
qed

text \<open>
  C7 as stated fails on a negative \<^verbatim>\<open>device_limit\<close>: \<^verbatim>\<open>parseInt\<close> reads \<^verbatim>\<open>-5\<close> as -5,
  which is truthy, and the key is stored with device limit -5.
\<close>

theorem negative_device_limit_counterexample:
  "parseInt ''-5'' = Some (- 5) \<and>
   fst (handler scenario_app 0 [] (Create_key ''api_abcdef'' ''PRO'' 30 (Some ''-5'') ''U1'')) =
     jsonResponse 200 True ''Key created'' \<and>
   map device_limit (keys (snd (handler scenario_app 0 []
     (Create_key ''api_abcdef'' ''PRO'' 30 (Some ''-5'') ''U1'')))) = [Some (- 5)]"
  by code_simp

subsection \<open>C8: the system info of a binding validation\<close>

text \<open>
  C8, as amended. Every \<^verbatim>\<open>validate_key\<close> request that is accepted and binds a new hardware
  id overwrites the stored system info of the key: with the system info of the request,
  and with NULL when the request has none.
\<close>

theorem validate_overwrites_system_info:
  assumes "reachable db" "i < length (keys db)" "r = keys db ! i"
    and "bound_hwids r = Some hs" "hw \<notin> set hs"
    and "success (fst (handler db now rnd (Validate_key (api r) (key r) hw si)))"
  shows "system_info (keys (snd (handler db now rnd (Validate_key (api r) (key r) hw si))) ! i) =
           (if si = [] then None else Some si)"
proof -
  have rin: "r \<in> set (keys db)"
    using assms(2,3) by simp
  have v: "validate_key db now (api r) (key r) hw si =
      (jsonResponse 200 True ''Valid key'',
       db\<lparr>keys := map (\<lambda>x. if key x = key r \<and> api x = api r
              then bind_update (JSON_stringify (hs @ [hw])) (if si = [] then None else Some si) now x
              else x) (keys db)\<rparr>)"
    using assms(4,5,6) by (intro validate_key_binds[OF assms(1) rin]) simp_all
  have "keys (snd (handler db now rnd (Validate_key (api r) (key r) hw si))) ! i =
      bind_update (JSON_stringify (hs @ [hw])) (if si = [] then None else Some si) now r"
    unfolding handler.simps v using assms(2) assms(3)[symmetric] by simp
  then show ?thesis
    by (simp add: bind_update_def)
qed

text \<open>On the key of limit 2 that holds \<^verbatim>\<open>H1\<close>: \<^verbatim>\<open>H2\<close> is bound at time 7 with system info
  \<^verbatim>\<open>Linux\<close>, which is then stored.\<close>

theorem validate_overwrites_system_info_witness:
  "reachable scenario_bound \<and>
   success (fst (handler scenario_bound 7 []
     (Validate_key ''api_abcdef'' ''( {prefix}- ){generateKey()}'' ''H2'' ''Linux''))) \<and>
   system_info (keys (snd (handler scenario_bound 7 []
     (Validate_key ''api_abcdef'' ''( {prefix}- ){generateKey()}'' ''H2'' ''Linux''))) ! 0) =
     Some ''Linux''"
proof -
  let ?r = "scenario_row (Some (JSON_stringify [''H1''])) False True 2 (Some ''Win10'') (Some 5)"
  have sel: "api ?r = ''api_abcdef''" "key ?r = ''( {prefix}- ){generateKey()}''"
    by (simp_all add: scenario_row_sel)
  have i: "0 < length (keys scenario_bound)" and r: "?r = keys scenario_bound ! 0"
    by (simp_all add: keys_scenario_bound)
  have b: "bound_hwids ?r = Some [''H1'']"
    by (simp add: bound_hwids_stringify scenario_row_sel)
  have nin: "''H2'' \<notin> set [''H1'']"
    by simp
  have ok: "success (fst (handler scenario_bound 7 []
      (Validate_key (api ?r) (key ?r) ''H2'' ''Linux'')))"
    unfolding sel by code_simp
  have "system_info (keys (snd (handler scenario_bound 7 []
      (Validate_key (api ?r) (key ?r) ''H2'' ''Linux''))) ! 0) =
      (if ''Linux'' = [] then None else Some ''Linux'')"
    using validate_overwrites_system_info[OF reachable_scenario_bound i r b nin ok] .
  then show ?thesis
    using reachable_scenario_bound ok unfolding sel by simp
qed

text \<open>
  C8 as stated fails: the key of limit 2 holds \<^verbatim>\<open>H1\<close> with system info \<^verbatim>\<open>Win10\<close>; the
  request that binds \<^verbatim>\<open>H2\<close> carries no system info and is accepted, and the stored system
  info is then NULL, not \<^verbatim>\<open>Win10\<close>.
\<close>

theorem system_info_cleared_counterexample:
  "map system_info (keys scenario_bound) = [Some ''Win10''] \<and>
   fst (handler scenario_bound 7 []
     (Validate_key ''api_abcdef'' ''( {prefix}- ){generateKey()}'' ''H2'' [])) =
     jsonResponse 200 True ''Valid key'' \<and>
   map bound_hwids (keys (snd (handler scenario_bound 7 []
     (Validate_key ''api_abcdef'' ''( {prefix}- ){generateKey()}'' ''H2'' [])))) =
     [Some [''H1'', ''H2'']] \<and>
   map system_info (keys (snd (handler scenario_bound 7 []
     (Validate_key ''api_abcdef'' ''( {prefix}- ){generateKey()}'' ''H2'' [])))) = [None]"
  by code_simp

subsection \<open>C9: the bound hardware ids and the device limit\<close>




subsection \<open>C10: the \<^verbatim>\<open>hwid\<close> column always parses\<close>

text \<open>
  C10, as amended. In every database that requests lead to, whatever JSON values their
  \<^verbatim>\<open>hwid\<close> fields hold, the \<^verbatim>\<open>hwid\<close> column of every key is NULL or the
  \<^verbatim>\<open>JSON.stringify\<close> of an array of values of requests, and the \<^verbatim>\<open>JSON.parse\<close> of the
  validate path succeeds on it and gives an array. When every \<^verbatim>\<open>hwid\<close> field was a
  string, the column is NULL or the \<^verbatim>\<open>JSON.stringify\<close> of an array of strings.
\<close>

theorem hwid_column_parses:
  assumes "reachable_any db" "r \<in> set (keys db)"
  shows "(hwid r = None \<or>
           (\<exists>vs. hwid r = Some (JSON_stringify_values vs) \<and> list_all wf_json vs)) \<and>
         (\<exists>vs. bound_values r = Some vs) \<and>
         (reachable db \<longrightarrow> hwid r = None \<or> (\<exists>hs. hwid r = Some (JSON_stringify hs)))"
  using reachable_any_bound_values[OF assms] reachable_bound_hwids(1)[OF _ assms(2)]
  by blast

text \<open>The key that holds the number 5 and the string \<^verbatim>\<open>H1\<close>, and the key that holds
  \<^verbatim>\<open>H1\<close> alone, bound by a request of the handler on strings.\<close>

theorem hwid_column_parses_witness:
  "reachable_any scenario_mixed \<and>
   map hwid (keys scenario_mixed) =
     [Some (JSON_stringify_values [JNumber ''5'', JString ''H1''])] \<and>
   map bound_values (keys scenario_mixed) = [Some [JNumber ''5'', JString ''H1'']] \<and>
   reachable scenario_bound \<and> reachable_any scenario_bound \<and>
   map hwid (keys scenario_bound) = [Some (JSON_stringify [''H1''])]"
proof -
  let ?m = "scenario_row (Some (JSON_stringify_values [JNumber ''5'', JString ''H1'']))
      False True 2 None (Some 5)"
  let ?b = "scenario_row (Some (JSON_stringify [''H1''])) False True 2 (Some ''Win10'') (Some 5)"
  have km: "keys scenario_mixed = [?m]"
    by code_simp
  have min: "?m \<in> set (keys scenario_mixed)"
    unfolding km by simp
  have bin: "?b \<in> set (keys scenario_bound)"
    unfolding keys_scenario_bound by simp
  have bm: "bound_values ?m = Some [JNumber ''5'', JString ''H1'']"
    by code_simp
  obtain vs where vs: "bound_values ?m = Some vs"
    using hwid_column_parses[OF reachable_any_scenario_mixed min] by blast
  have vs_eq: "vs = [JNumber ''5'', JString ''H1'']"
    using vs bm by simp
  have typed: "hwid ?b = None \<or> (\<exists>hs. hwid ?b = Some (JSON_stringify hs))"
    using hwid_column_parses[OF reachable_reachable_any[OF reachable_scenario_bound] bin]
      reachable_scenario_bound by blast
  have "map bound_values (keys scenario_mixed) = [Some vs]"
    unfolding km using vs by simp
  then show ?thesis
    unfolding vs_eq keys_scenario_bound
    using reachable_any_scenario_mixed reachable_scenario_bound
      reachable_reachable_any[OF reachable_scenario_bound] typed
    by (simp add: km scenario_row_sel)
qed

text \<open>
  C10 as stated fails on a \<^verbatim>\<open>hwid\<close> that is not a string: the request with \<^verbatim>\<open>hwid\<close> 5 is
  accepted and the column becomes \<^verbatim>\<open>[5]\<close>, which \<^verbatim>\<open>JSON.parse\<close> reads as an array
  of one number and which is the serialisation of no array of strings.
\<close>

theorem non_string_hwid_counterexample:
  "reachable_any scenario_number \<and>
   fst (handler_any (scenario_key ''2'') 5 []
     (Validate_key_any ''api_abcdef'' ''( {prefix}- ){generateKey()}'' (JNumber ''5'') [])) =
     jsonResponse 200 True ''Valid key'' \<and>
   map hwid (keys scenario_number) = [Some ''[5]''] \<and>
   JSON_parse_value ''[5]'' = Some (JArray [JNumber ''5'']) \<and>
   (\<nexists>hs. ''[5]'' = JSON_stringify hs)"
proof -
  have "fst (handler_any (scenario_key ''2'') 5 []
     (Validate_key_any ''api_abcdef'' ''( {prefix}- ){generateKey()}'' (JNumber ''5'') [])) =
     jsonResponse 200 True ''Valid key'' \<and>
   map hwid (keys scenario_number) = [Some ''[5]''] \<and>
   JSON_parse_value ''[5]'' = Some (JArray [JNumber ''5''])"
    by code_simp
  then show ?thesis
    using reachable_any_scenario_number not_stringify_of_strings by metis
qed

end
